theory Spec2Isabelle
  imports Main "HOL-Library.Sublist"
begin

section \<open>JavaScript values used by the process tree script\<close>

text \<open>
  The script \<^verbatim>\<open>web/src/scripts/process_tree.js\<close> is browser glue code. Its values are
  numbers (page numbers, process ids), strings (link labels, URLs), \<^verbatim>\<open>null\<close>,
  \<^verbatim>\<open>undefined\<close> and the record parsed from an embedded script tag. Numbers are modelled
  as mathematical integers; \<^verbatim>\<open>NaN\<close>, which \<^verbatim>\<open>parseInt\<close> can return, is a value of its own.
  Booleans and arrays do not occur among the values the script passes on and are left out.
\<close>

datatype jsnum = NaN | Num int

datatype jsval =
    JUndefined
  | JNull
  | JNum int
  | JStr string
  | JObj "(string \<times> jsval) list"

datatype error = TypeError | SyntaxError

text \<open>Truthiness, as tested by \<^verbatim>\<open>if(x)\<close> and \<^verbatim>\<open>!x\<close>.\<close>

fun truthy :: "jsval \<Rightarrow> bool" where
  "truthy JUndefined = False"
| "truthy JNull = False"
| "truthy (JNum n) = (n \<noteq> 0)"
| "truthy (JStr s) = (s \<noteq> [])"
| "truthy (JObj kvs) = True"

text \<open>Decimal rendering of a number, as a template literal or \<^verbatim>\<open>.text(n)\<close> produces it.\<close>

definition digit_char :: "nat \<Rightarrow> char" where
  "digit_char d = char_of (48 + d)"

function digits :: "nat \<Rightarrow> string" where
  "digits n = (if n < 10 then [digit_char n] else digits (n div 10) @ [digit_char (n mod 10)])"
  by pat_completeness auto
termination
  by (relation "measure id") auto

declare digits.simps [simp del]

definition show_int :: "int \<Rightarrow> string" where
  "show_int i = (if i < 0 then CHR ''-'' # digits (nat (- i)) else digits (nat i))"

text \<open>\<^verbatim>\<open>`${v}`\<close>: the string conversion of a template literal.\<close>

fun to_string :: "jsval \<Rightarrow> string" where
  "to_string JUndefined = ''undefined''"
| "to_string JNull = ''null''"
| "to_string (JNum n) = show_int n"
| "to_string (JStr s) = s"
| "to_string (JObj kvs) = ''[object Object]''"

text \<open>
  \<^verbatim>\<open>parseInt(s)\<close> with no radix: leading white space is skipped, an optional sign is read,
  a \<^verbatim>\<open>0x\<close> prefix selects radix 16, and the longest prefix of digits is converted;
  with no digit at all the result is \<^verbatim>\<open>NaN\<close>.
\<close>

definition is_space :: "char \<Rightarrow> bool" where
  "is_space c = (c = CHR '' '' \<or> c = CHR 0x09 \<or> c = CHR 0x0A \<or> c = CHR 0x0B
     \<or> c = CHR 0x0C \<or> c = CHR 0x0D)"

definition digit_val :: "char \<Rightarrow> nat option" where
  "digit_val c =
     (let k = of_char c :: nat in
      if 48 \<le> k \<and> k \<le> 57 then Some (k - 48)
      else if 97 \<le> k \<and> k \<le> 102 then Some (k - 87)
      else if 65 \<le> k \<and> k \<le> 70 then Some (k - 55)
      else None)"

fun parse_digits :: "nat \<Rightarrow> nat option \<Rightarrow> string \<Rightarrow> nat option" where
  "parse_digits radix acc [] = acc"
| "parse_digits radix acc (c # cs) =
     (case digit_val c of
        None \<Rightarrow> acc
      | Some d \<Rightarrow>
          if d < radix
          then parse_digits radix (Some ((case acc of None \<Rightarrow> 0 | Some a \<Rightarrow> a) * radix + d)) cs
          else acc)"

definition parse_unsigned :: "string \<Rightarrow> nat option" where
  "parse_unsigned s =
     (if prefix ''0x'' s \<or> prefix ''0X'' s then parse_digits 16 None (drop 2 s)
      else parse_digits 10 None s)"

definition parseInt :: "string \<Rightarrow> jsnum" where
  "parseInt s =
     (let t = dropWhile is_space s;
          neg = (case t of c # _ \<Rightarrow> c = CHR ''-'' | [] \<Rightarrow> False);
          u = (case t of c # cs \<Rightarrow> if c = CHR ''-'' \<or> c = CHR ''+'' then cs else t | [] \<Rightarrow> [])
      in case parse_unsigned u of
           None \<Rightarrow> NaN
         | Some m \<Rightarrow> Num (if neg then - int m else int m))"

text \<open>\<^verbatim>\<open>s.replace(pat, rep)\<close> with a string pattern: the first occurrence is replaced.\<close>

fun replace_first :: "string \<Rightarrow> string \<Rightarrow> string \<Rightarrow> string" where
  "replace_first pat rep [] = (if pat = [] then rep else [])"
| "replace_first pat rep (c # cs) =
     (if prefix pat (c # cs) then rep @ drop (length pat) (c # cs)
      else c # replace_first pat rep cs)"

section \<open>PaginationBar\<close>

text \<open>
  \<^verbatim>\<open>_page(n)\<close> is called with a number or with the string \<^verbatim>\<open>'...'\<close>. A link keeps the
  value given to \<^verbatim>\<open>$link.text(n)\<close>, the \<^verbatim>\<open>active\<close> class and the \<^verbatim>\<open>href\<close> attribute.
\<close>

datatype label = PageNum int | Dots

record link =
  label :: label
  active :: bool
  href :: "string option"

fun label_text :: "label \<Rightarrow> string" where
  "label_text (PageNum n) = show_int n"
| "label_text Dots = ''...''"

text \<open>
  \<^verbatim>\<open>n == config.currentPage\<close>: two numbers are compared by value, \<^verbatim>\<open>NaN\<close> equals nothing,
  and \<^verbatim>\<open>'...'\<close> converts to \<^verbatim>\<open>NaN\<close>. \<^verbatim>\<open>isNaN(n)\<close> is false for a number and true for
  \<^verbatim>\<open>'...'\<close>.
\<close>

fun label_eq :: "label \<Rightarrow> jsnum \<Rightarrow> bool" where
  "label_eq (PageNum n) (Num c) = (n = c)"
| "label_eq _ _ = False"

fun label_isNaN :: "label \<Rightarrow> bool" where
  "label_isNaN (PageNum n) = False"
| "label_isNaN Dots = True"

definition page :: "jsnum \<Rightarrow> label \<Rightarrow> link" where
  "page cur n =
     \<lparr> label = n,
       active = label_eq n cur,
       href = (if \<not> label_isNaN n then Some (''page:'' @ label_text n) else None) \<rparr>"

text \<open>The \<^verbatim>\<open>for\<close> loop of \<^verbatim>\<open>render\<close>, appending one page item per iteration.\<close>

function page_loop :: "jsnum \<Rightarrow> int \<Rightarrow> int \<Rightarrow> link list \<Rightarrow> link list" where
  "page_loop cur i pageMax html =
     (if i \<le> pageMax then page_loop cur (i + 1) pageMax (html @ [page cur (PageNum i)])
      else html)"
  by pat_completeness auto
termination
  by (relation "measure (\<lambda>(cur, i, pageMax, html). nat (pageMax + 1 - i))") auto

declare page_loop.simps [simp del]

text \<open>
  The list built by \<^verbatim>\<open>render\<close>. With \<^verbatim>\<open>currentPage\<close> being \<^verbatim>\<open>NaN\<close> every comparison is
  false and \<^verbatim>\<open>Math.max(2, NaN)\<close> is \<^verbatim>\<open>NaN\<close>, so only the first page item is produced.
\<close>

definition render_links :: "jsnum \<Rightarrow> int \<Rightarrow> link list" where
  "render_links cur tp =
     (case cur of
        NaN \<Rightarrow> [page cur (PageNum 1)]
      | Num c \<Rightarrow>
          (let html = [page cur (PageNum 1)];
               html = (if c - 10 > 2 then html @ [page cur Dots] else html);
               pageMin = max 2 (c - 10);
               pageMax = min tp (c + 10);
               html = page_loop cur pageMin pageMax html
           in if c + 10 < tp then html @ [page cur Dots, page cur (PageNum tp)]
              else html))"

text \<open>
  The state of a \<^verbatim>\<open>PaginationBar\<close>: the three configuration entries the code reads
  (\<^verbatim>\<open>config.container\<close> is \<open>None\<close> for \<^verbatim>\<open>null\<close> and otherwise holds the list of
  links currently inside the container element) and whether \<^verbatim>\<open>this.$\<close> has been set.
\<close>

record bar =
  config_currentPage :: jsnum
  config_totalPages :: int
  config_container :: "link list option"
  dollar :: bool

text \<open>
  \<^verbatim>\<open>bind(pages)\<close> attaches the click handler to every \<^verbatim>\<open>a[href]\<close> of the container and
  stores the container in \<^verbatim>\<open>this.$\<close>; the handlers are modelled by \<open>click\<close> below.
\<close>

definition bind :: "bar \<Rightarrow> bar" where
  "bind b = b\<lparr>dollar := True\<rparr>"

text \<open>
  \<^verbatim>\<open>render()\<close>: with a container the list replaces the container's content and the
  handlers are bound; without one the list is returned.
\<close>

definition render :: "bar \<Rightarrow> bar \<times> link list option" where
  "render b =
     (let html = render_links (config_currentPage b) (config_totalPages b)
      in case config_container b of
           Some old \<Rightarrow> (bind (b\<lparr>config_container := Some html\<rparr>), None)
         | None \<Rightarrow> (b, Some html))"

text \<open>
  The constructor: \<^verbatim>\<open>$.extend\<close> keeps a default wherever the option is missing or
  \<^verbatim>\<open>undefined\<close> (\<^verbatim>\<open>currentPage: 1\<close>, \<^verbatim>\<open>totalPages: 40\<close>, \<^verbatim>\<open>container: null\<close>), then the
  bar is rendered.
\<close>

definition PaginationBar :: "link list option \<Rightarrow> jsnum option \<Rightarrow> int option \<Rightarrow> bar" where
  "PaginationBar container cp tp =
     fst (render \<lparr> config_currentPage = (case cp of None \<Rightarrow> Num 1 | Some c \<Rightarrow> c),
                   config_totalPages = (case tp of None \<Rightarrow> 40 | Some t \<Rightarrow> t),
                   config_container = container,
                   dollar = False \<rparr>)"

text \<open>
  \<^verbatim>\<open>goto(n)\<close>: the configured \<^verbatim>\<open>onPaginate\<close> callback is a parameter; it receives its
  argument, the bar as it is after rendering, and the state of its own closure.
\<close>

definition goto :: "(string \<Rightarrow> bar \<Rightarrow> 'w \<Rightarrow> 'r) \<Rightarrow> string \<Rightarrow> bar \<Rightarrow> 'w \<Rightarrow> 'r" where
  "goto callback n b w =
     (let b1 = b\<lparr>config_currentPage := parseInt n\<rparr>;
          b2 = fst (render b1)
      in callback n b2 w)"

text \<open>
  A click on the \<open>i\<close>-th link of the container. Only links with an \<^verbatim>\<open>href\<close> carry the
  handler bound by \<^verbatim>\<open>bind\<close>; a click anywhere else runs no code of the bar, which the
  second argument \<open>idle\<close> stands for.
\<close>

definition click ::
  "(string \<Rightarrow> bar \<Rightarrow> 'w \<Rightarrow> 'r) \<Rightarrow> (bar \<Rightarrow> 'w \<Rightarrow> 'r) \<Rightarrow> nat \<Rightarrow> bar \<Rightarrow> 'w \<Rightarrow> 'r" where
  "click callback idle i b w =
     (case config_container b of
        None \<Rightarrow> idle b w
      | Some html \<Rightarrow>
          if dollar b \<and> i < length html
          then (case href (html ! i) of
                  None \<Rightarrow> idle b w
                | Some h \<Rightarrow> goto callback (replace_first ''page:'' [] h) b w)
          else idle b w)"

text \<open>\<^verbatim>\<open>destroy()\<close> empties \<^verbatim>\<open>this.$\<close>, which is \<^verbatim>\<open>null\<close> until \<^verbatim>\<open>bind\<close> has run.\<close>

definition destroy :: "bar \<Rightarrow> error + bar" where
  "destroy b = (if dollar b then Inr (b\<lparr>config_container := Some []\<rparr>) else Inl TypeError)"

section \<open>Tree\<close>

text \<open>
  An element is represented by its set of class names. \<^verbatim>\<open>toggleClass(c)\<close> flips the
  class on each element of the selection, \<^verbatim>\<open>toggleClass(c, state)\<close> adds or removes it,
  \<^verbatim>\<open>hasClass(c)\<close> holds when some element of the selection has the class.
\<close>

type_synonym classes = "string set"

definition toggleClass :: "string \<Rightarrow> classes \<Rightarrow> classes" where
  "toggleClass c cs = (if c \<in> cs then cs - {c} else insert c cs)"

definition setClass :: "string \<Rightarrow> bool \<Rightarrow> classes \<Rightarrow> classes" where
  "setClass c state cs = (if state then insert c cs else cs - {c})"

definition hasClass :: "string \<Rightarrow> classes list \<Rightarrow> bool" where
  "hasClass c sel = list_ex (\<lambda>cs. c \<in> cs) sel"

text \<open>
  A branch, seen from one toggle control: the \<^verbatim>\<open>ul\<close> children of the closest \<^verbatim>\<open>li\<close>
  (there may be none, or several) and the control itself.
\<close>

record branch =
  target_lists :: "classes list"
  toggle :: classes

definition toggleBranch :: "branch \<Rightarrow> branch" where
  "toggleBranch b =
     (let targetList = map (toggleClass ''open'') (target_lists b)
      in \<lparr> target_lists = targetList,
           toggle = setClass ''is-open'' (hasClass ''open'' targetList) (toggle b) \<rparr>)"

section \<open>ProcessBehaviorView\<close>

text \<open>
  An element parsed from a response, as far as \<^verbatim>\<open>renderTable\<close> looks at it: its classes,
  the number of \<^verbatim>\<open>thead th\<close> cells in it and the children of its \<^verbatim>\<open>tbody\<close>.
  \<open>NoResultRow n\<close> is the row built by \<^verbatim>\<open>renderTable\<close>: one cell with \<^verbatim>\<open>colspan\<close> \<open>n\<close> and
  class \<^verbatim>\<open>no-result\<close>, holding the paragraph \<^verbatim>\<open>No results\<close> and the button
  \<^verbatim>\<open>Reset filter\<close>.
\<close>

datatype row = DataRow string | NoResultRow nat

record table =
  table_classes :: classes
  columns :: nat
  body :: "row list"

text \<open>
  \<^verbatim>\<open>$.parseHTML\<close> turns the text of a response into an array of nodes. A node is an
  element or a piece of text (white space in front of the first tag is such a node); a
  comment behaves like text in all that follows.
\<close>

datatype node = Element table | TextNode string

text \<open>The effects on the page and the network, in the order in which they happen.\<close>

datatype event =
    LoaderStart
  | LoaderStop
  | Get string
  | SetText string jsval
  | BarEmptied
  | TagsCleared
  | TagActivated string
  | TableReplaced
  | LoadedShown
  | UnloadedHidden

text \<open>
  The globals the script reads: \<^verbatim>\<open>window.task_id\<close>, the page counts
  \<^verbatim>\<open>window.PROCESS_TREE_PAGINATION_INFO\<close> (a property that is missing reads as
  \<^verbatim>\<open>undefined\<close>), and \<^verbatim>\<open>JSON.parse\<close>, which throws a \<^verbatim>\<open>SyntaxError\<close> on text that is
  not JSON (\<open>None\<close>).
\<close>

record window =
  task_id :: jsval
  PROCESS_TREE_PAGINATION_INFO :: "string \<Rightarrow> int option"
  JSON_parse :: "string \<Rightarrow> jsval option"

text \<open>
  The fields of the view. \<open>loader\<close> tells whether \<^verbatim>\<open>this._loader\<close> is an object rather
  than \<^verbatim>\<open>null\<close>; \<open>bar_pid\<close> is the \<^verbatim>\<open>pid\<close> captured by the \<^verbatim>\<open>onPaginate\<close> closure of the
  current bar; \<open>behavior_table\<close> is the content of \<^verbatim>\<open>#behavior-table\<close>, a node together
  with the rows that \<^verbatim>\<open>renderTable\<close> appended to it; \<open>pending\<close> are the URLs of the requests
  whose callback has not run yet.
\<close>

record view =
  loader :: bool
  currentPage :: jsval
  currentPid :: jsval
  bar_of :: "bar option"
  bar_pid :: jsval
  behavior_table :: "(node \<times> row list) option"
  tree :: "branch list"
  pending :: "string list"
  events :: "event list"

text \<open>
  An exception leaves the fields as they were when it was thrown, so a failed call
  returns the error together with that state.
\<close>

type_synonym 'a result = "(error \<times> 'a) + 'a"

definition after :: "view result \<Rightarrow> view" where
  "after r = (case r of Inl (e, v) \<Rightarrow> v | Inr v \<Rightarrow> v)"

definition emit :: "event list \<Rightarrow> view \<Rightarrow> view" where
  "emit es v = v\<lparr>events := events v @ es\<rparr>"

text \<open>
  The constructor, for a root element with or without a \<^verbatim>\<open>.loading\<close> element: a loader
  that is created is stopped at once. The \<^verbatim>\<open>Tree\<close> it creates binds \<^verbatim>\<open>toggleBranch\<close> to the
  toggle controls, which are kept as the branches of the view; the attribute and the class
  that \<^verbatim>\<open>Tree\<close> puts on the root list play no part in what follows.
\<close>

definition ProcessBehaviorView :: "bool \<Rightarrow> branch list \<Rightarrow> view" where
  "ProcessBehaviorView has_loading branches =
     \<lparr> loader = has_loading,
       currentPage = JNum 1,
       currentPid = JNull,
       bar_of = None,
       bar_pid = JUndefined,
       behavior_table = None,
       tree = branches,
       pending = [],
       events = (if has_loading then [LoaderStop] else []) \<rparr>"

definition chunk_url :: "window \<Rightarrow> jsval \<Rightarrow> jsval \<Rightarrow> string" where
  "chunk_url w pid pg =
     ''/analysis/chunk/'' @ to_string (task_id w) @ ''/'' @ to_string pid @ ''/'' @ to_string pg"

definition filtered_url :: "window \<Rightarrow> jsval \<Rightarrow> jsval \<Rightarrow> string" where
  "filtered_url w pid f =
     ''/analysis/filtered/'' @ to_string (task_id w) @ ''/'' @ to_string pid @ ''/'' @ to_string f"

text \<open>
  \<^verbatim>\<open>loadChunk(pid, filter)\<close>; a missing second argument is \<^verbatim>\<open>undefined\<close>. Calling
  \<^verbatim>\<open>start\<close> on a \<^verbatim>\<open>null\<close> loader throws a \<^verbatim>\<open>TypeError\<close>.
\<close>

definition loadChunk :: "window \<Rightarrow> jsval \<Rightarrow> jsval \<Rightarrow> view \<Rightarrow> view result" where
  "loadChunk w pid filter' v =
     (let v1 = v\<lparr>currentPid := pid\<rparr>;
          url = (if \<not> truthy filter' then chunk_url w pid (currentPage v1)
                 else filtered_url w pid filter')
      in if length url \<noteq> 0
         then (if \<not> loader v1 then Inl (TypeError, v1)
               else Inr ((emit [LoaderStart, Get url] v1)\<lparr>pending := pending v1 @ [url]\<rparr>))
         else Inr v1)"

text \<open>
  The calls that \<^verbatim>\<open>renderTable\<close> makes on \<^verbatim>\<open>$(table)\<close>, where \<^verbatim>\<open>table\<close> is the first node of
  the array or \<^verbatim>\<open>undefined\<close> when the array is empty. \<^verbatim>\<open>find\<close> looks below an element
  only, \<^verbatim>\<open>removeClass\<close>, \<^verbatim>\<open>addClass\<close> and \<^verbatim>\<open>append\<close> act on elements only; on a text node
  and on the empty selection they find nothing and change nothing.
\<close>

fun find_thead_th :: "node option \<Rightarrow> nat" where
  "find_thead_th (Some (Element t)) = columns t"
| "find_thead_th n = 0"

fun find_tbody_children :: "node option \<Rightarrow> row list" where
  "find_tbody_children (Some (Element t)) = body t"
| "find_tbody_children n = []"

fun restyle :: "node \<Rightarrow> node" where
  "restyle (Element t) =
     Element (t\<lparr>table_classes :=
                  insert ''cuckoo-table'' (table_classes t - {''table'', ''table-bordered''})\<rparr>)"
| "restyle (TextNode s) = TextNode s"

fun append_row :: "row \<Rightarrow> node \<times> row list \<Rightarrow> node \<times> row list" where
  "append_row r (Element t, extra) = (Element t, extra @ [r])"
| "append_row r (TextNode s, extra) = (TextNode s, extra)"

text \<open>
  \<^verbatim>\<open>renderTable(plainTextResponse)\<close>. The argument of the model is what \<^verbatim>\<open>$.parseHTML\<close>
  returns for the response: an array of nodes, or \<^verbatim>\<open>null\<close> (\<open>None\<close>), in which case
  reading its element \<^verbatim>\<open>[0]\<close> throws a \<^verbatim>\<open>TypeError\<close>. \<^verbatim>\<open>.html(table)\<close> replaces the content
  of \<^verbatim>\<open>#behavior-table\<close> by the node; \<^verbatim>\<open>.html(undefined)\<close> only reads and leaves the content
  as it is. With no \<^verbatim>\<open>tbody\<close> child found, the row is built and appended to
  \<^verbatim>\<open>$(table)\<close>, which takes it only when \<^verbatim>\<open>table\<close> is an element.
\<close>

definition renderTable :: "node list option \<Rightarrow> view \<Rightarrow> view result" where
  "renderTable parsed v =
     (case parsed of
        None \<Rightarrow> Inl (TypeError, v)
      | Some nodes \<Rightarrow>
          (let first = (case nodes of [] \<Rightarrow> None | n # ns \<Rightarrow> Some n);
               tableColumns = find_thead_th first;
               tableChildren = find_tbody_children first;
               v1 = (case first of
                       None \<Rightarrow> v
                     | Some n \<Rightarrow> emit [TableReplaced] (v\<lparr>behavior_table := Some (restyle n, [])\<rparr>));
               v2 = emit [LoadedShown, UnloadedHidden] v1
           in if length tableChildren = 0
              then (case first of
                      None \<Rightarrow> Inr v2
                    | Some n \<Rightarrow>
                        Inr (v2\<lparr>behavior_table :=
                                  Some (append_row (NoResultRow tableColumns) (restyle n, []))\<rparr>))
              else Inr v2))"

text \<open>
  The button of a \<open>NoResultRow\<close> exists exactly while such a row is in the table on
  display; its click handler is \<open>reset_click\<close>.
\<close>

fun is_no_result :: "row \<Rightarrow> bool" where
  "is_no_result (NoResultRow n) = True"
| "is_no_result (DataRow d) = False"

definition reset_button :: "view \<Rightarrow> bool" where
  "reset_button v =
     (case behavior_table v of
        None \<Rightarrow> False
      | Some (t, extra) \<Rightarrow> list_ex is_no_result extra)"

definition reset_click :: "window \<Rightarrow> view \<Rightarrow> view result" where
  "reset_click w v =
     (if truthy (currentPid v)
      then loadChunk w (currentPid v) JUndefined (emit [TagsCleared] v)
      else Inr v)"

text \<open>
  \<^verbatim>\<open>renderBar(pid, current)\<close>. The container is the element found by
  \<^verbatim>\<open>.process-spec--pagination\<close>; the selection is an object even when empty, so the bar
  always has a container. The index into the page counts is the string form of \<^verbatim>\<open>pid\<close>.
\<close>

definition onPaginate :: "window \<Rightarrow> jsval \<Rightarrow> string \<Rightarrow> bar \<Rightarrow> view \<Rightarrow> view result" where
  "onPaginate w pid pg b v =
     loadChunk w pid JUndefined (v\<lparr>bar_of := Some b, currentPage := JStr pg\<rparr>)"

definition renderBar :: "window \<Rightarrow> jsval \<Rightarrow> jsval \<Rightarrow> view \<Rightarrow> view result" where
  "renderBar w pid current v =
     (let v1 = v\<lparr>currentPage := current\<rparr>;
          r = (case bar_of v1 of
                 None \<Rightarrow> Inr v1
               | Some b \<Rightarrow>
                   (case destroy b of
                      Inl e \<Rightarrow> Inl (e, v1)
                    | Inr b' \<Rightarrow> Inr (emit [BarEmptied] (v1\<lparr>bar_of := Some b'\<rparr>))))
      in case r of
           Inl e \<Rightarrow> Inl e
         | Inr v2 \<Rightarrow>
             Inr (v2\<lparr>bar_of := Some (PaginationBar (Some []) None
                                      (PROCESS_TREE_PAGINATION_INFO w (to_string pid))),
                     bar_pid := pid\<rparr>))"

text \<open>
  \<^verbatim>\<open>parseProcessData(scr)\<close>: \<open>None\<close> is a falsy argument, \<open>Some txt\<close> an element whose
  \<^verbatim>\<open>text()\<close> is \<open>txt\<close>.
\<close>

definition parseProcessData :: "window \<Rightarrow> string option \<Rightarrow> error + jsval" where
  "parseProcessData w scr =
     (case scr of
        None \<Rightarrow> Inr (JObj [])
      | Some txt \<Rightarrow> (case JSON_parse w txt of None \<Rightarrow> Inl SyntaxError | Some d \<Rightarrow> Inr d))"

text \<open>
  Reading one of the properties \<^verbatim>\<open>pid\<close>, \<^verbatim>\<open>ppid\<close>, \<^verbatim>\<open>name\<close>: a \<^verbatim>\<open>TypeError\<close> on \<^verbatim>\<open>null\<close>
  and \<^verbatim>\<open>undefined\<close>, \<^verbatim>\<open>undefined\<close> where the property is missing.
\<close>

definition property :: "(string \<times> jsval) list \<Rightarrow> string \<Rightarrow> jsval" where
  "property kvs k = (case map_of kvs k of None \<Rightarrow> JUndefined | Some x \<Rightarrow> x)"

fun get_prop :: "jsval \<Rightarrow> string \<Rightarrow> error + jsval" where
  "get_prop JUndefined k = Inl TypeError"
| "get_prop JNull k = Inl TypeError"
| "get_prop (JObj kvs) k = Inr (property kvs k)"
| "get_prop (JNum n) k = Inr JUndefined"
| "get_prop (JStr s) k = Inr JUndefined"

definition populate :: "window \<Rightarrow> string option \<Rightarrow> view \<Rightarrow> view result" where
  "populate w el v =
     (case parseProcessData w el of
        Inl e \<Rightarrow> Inl (e, v)
      | Inr data \<Rightarrow>
          (case get_prop data ''pid'' of
             Inl e \<Rightarrow> Inl (e, v)
           | Inr pid \<Rightarrow>
               (let v1 = emit [SetText ''process-detail-pid'' pid] v in
                case get_prop data ''ppid'' of
                  Inl e \<Rightarrow> Inl (e, v1)
                | Inr ppid \<Rightarrow>
                    (let v2 = emit [SetText ''process-detail-ppid'' ppid] v1 in
                     case get_prop data ''name'' of
                       Inl e \<Rightarrow> Inl (e, v2)
                     | Inr name \<Rightarrow>
                         (let v3 = emit [SetText ''process-detail-name'' name] v2
                          in renderBar w pid (JNum 1) v3)))))"

text \<open>
  What can happen to a view: the handlers bound in \<^verbatim>\<open>initialise\<close>, \<^verbatim>\<open>renderTable\<close>,
  \<^verbatim>\<open>Tree.setup\<close> and \<^verbatim>\<open>PaginationBar.bind\<close>, the arrival of a response (the success
  callback given to \<^verbatim>\<open>$.get\<close>), a request that ends without one, and direct calls of the
  four methods.
\<close>

datatype action =
    LoadClick jsval string
  | FilterClick string
  | PageClick nat
  | ResetClick
  | ToggleClick nat
  | Respond nat "node list option"
  | Fail nat
  | CallLoadChunk jsval jsval
  | CallPopulate "string option"
  | CallRenderTable "node list option"
  | CallRenderBar jsval jsval

definition remove_nth :: "nat \<Rightarrow> 'a list \<Rightarrow> 'a list" where
  "remove_nth i xs = take i xs @ drop (Suc i) xs"

fun step :: "window \<Rightarrow> action \<Rightarrow> view \<Rightarrow> view result" where
  "step w (LoadClick d script) v =
     (case loadChunk w d JUndefined v of
        Inl e \<Rightarrow> Inl e
      | Inr v1 \<Rightarrow>
          (case populate w (Some script) v1 of
             Inl e \<Rightarrow> Inl e
           | Inr v2 \<Rightarrow> Inr (emit [TagsCleared] v2)))"
| "step w (FilterClick f) v =
     (case (case bar_of v of
              None \<Rightarrow> Inr v
            | Some b \<Rightarrow>
                (case destroy b of
                   Inl e \<Rightarrow> Inl (e, v)
                 | Inr b' \<Rightarrow> Inr (emit [BarEmptied] (v\<lparr>bar_of := Some b'\<rparr>)))) of
        Inl e \<Rightarrow> Inl e
      | Inr v1 \<Rightarrow>
          (case loadChunk w (currentPid v1) (JStr f) v1 of
             Inl e \<Rightarrow> Inl e
           | Inr v2 \<Rightarrow> Inr (emit [TagsCleared, TagActivated f] v2)))"
| "step w (PageClick i) v =
     (case bar_of v of
        None \<Rightarrow> Inr v
      | Some b \<Rightarrow> click (onPaginate w (bar_pid v)) (\<lambda>b v. Inr v) i b v)"
| "step w ResetClick v = (if reset_button v then reset_click w v else Inr v)"
| "step w (ToggleClick i) v =
     (if i < length (tree v) then Inr (v\<lparr>tree := (tree v)[i := toggleBranch (tree v ! i)]\<rparr>)
      else Inr v)"
| "step w (Respond i res) v =
     (if i < length (pending v)
      then (let v1 = v\<lparr>pending := remove_nth i (pending v)\<rparr>
            in if \<not> loader v1 then Inl (TypeError, v1)
               else renderTable res (emit [LoaderStop] v1))
      else Inr v)"
| "step w (Fail i) v =
     (if i < length (pending v) then Inr (v\<lparr>pending := remove_nth i (pending v)\<rparr>) else Inr v)"
| "step w (CallLoadChunk pid filter') v = loadChunk w pid filter' v"
| "step w (CallPopulate el) v = populate w el v"
| "step w (CallRenderTable res) v = renderTable res v"
| "step w (CallRenderBar pid current) v = renderBar w pid current v"

text \<open>
  Handlers run one after the other; an exception ends the handler that threw it and the
  next one starts from the state it left.
\<close>

fun run :: "window \<Rightarrow> action list \<Rightarrow> view \<Rightarrow> view" where
  "run w [] v = v"
| "run w (a # as) v = run w as (after (step w a v))"

fun is_response :: "action \<Rightarrow> bool" where
  "is_response (Respond i res) = True"
| "is_response a = False"

text \<open>
  Modelled from the spec: the class \<^verbatim>\<open>Loader\<close> is not part of this file; \<^verbatim>\<open>start\<close> shows
  the loading indicator and \<^verbatim>\<open>stop\<close> hides it, so the indicator is visible exactly when
  the last call on the loader was \<^verbatim>\<open>start\<close>.
\<close>

fun loading_from :: "bool \<Rightarrow> event list \<Rightarrow> bool" where
  "loading_from st [] = st"
| "loading_from st (LoaderStart # es) = loading_from True es"
| "loading_from st (LoaderStop # es) = loading_from False es"
| "loading_from st (e # es) = loading_from st es"

definition loading :: "view \<Rightarrow> bool" where
  "loading v = loading_from False (events v)"

section \<open>Notions used to state the properties\<close>

text \<open>Page numbers next to each other in the list are consecutive.\<close>

fun contiguous :: "label list \<Rightarrow> bool" where
  "contiguous (PageNum a # PageNum b # ls) = (b = a + 1 \<and> contiguous (PageNum b # ls))"
| "contiguous (l # ls) = contiguous ls"
| "contiguous [] = True"

text \<open>
  The list of links that \<^verbatim>\<open>render()\<close> produces: the new content of the container, or
  the returned value when there is no container.
\<close>

definition rendered :: "bar \<Rightarrow> link list" where
  "rendered b =
     (case render b of
        (b', Some html) \<Rightarrow> html
      | (b', None) \<Rightarrow> (case config_container b' of Some html \<Rightarrow> html | None \<Rightarrow> []))"

text \<open>The link that follows the first link is an ellipsis placeholder.\<close>

fun leading_ellipsis :: "label list \<Rightarrow> bool" where
  "leading_ellipsis (a # b # ls) = (b = Dots)"
| "leading_ellipsis ls = False"

text \<open>
  The current bar, if there is one, has been bound to its container, so that
  \<^verbatim>\<open>destroy()\<close> can empty it.
\<close>

definition bar_bound :: "view \<Rightarrow> bool" where
  "bar_bound v = (case bar_of v of None \<Rightarrow> True | Some b \<Rightarrow> dollar b)"

fun is_request :: "event \<Rightarrow> bool" where
  "is_request (Get url) = True"
| "is_request e = False"

text \<open>
  \<open>calm v v'\<close> relates a state to a later one: the loader field is the same, the events of
  \<open>v\<close> have only been extended, no extension stops the loader, and without a loader no
  request was issued and none was added to the pending ones.
\<close>

definition calm :: "view \<Rightarrow> view \<Rightarrow> bool" where
  "calm v v' =
     (loader v' = loader v
      \<and> take (length (events v)) (events v') = events v
      \<and> LoaderStop \<notin> set (drop (length (events v)) (events v'))
      \<and> (loader v \<or> (list_all (\<lambda>e. \<not> is_request e) (drop (length (events v)) (events v'))
                       \<and> length (pending v') \<le> length (pending v))))"

section \<open>Strings and numbers\<close>

lemma of_char_digit_char: "d < 10 \<Longrightarrow> (of_char (digit_char d) :: nat) = 48 + d"
  unfolding digit_char_def by (simp add: of_char_of)

lemma digit_val_digit_char: "d < 10 \<Longrightarrow> digit_val (digit_char d) = Some d"
  unfolding digit_val_def Let_def by (simp add: of_char_digit_char)

lemma digit_char_neq:
  assumes "d < 10" and "(of_char c :: nat) < 48 \<or> 57 < (of_char c :: nat)"
  shows "digit_char d \<noteq> c"
proof
  assume "digit_char d = c"
  then have "(of_char c :: nat) = 48 + d" using of_char_digit_char [OF assms(1)] by simp
  with assms show False by auto
qed

lemma digit_char_not_special:
  assumes "d < 10"
  shows "\<not> is_space (digit_char d)" "digit_char d \<noteq> CHR ''-''" "digit_char d \<noteq> CHR ''+''"
    "digit_char d \<noteq> CHR ''x''" "digit_char d \<noteq> CHR ''X''"
proof -
  show "digit_char d \<noteq> CHR ''-''" by (rule digit_char_neq [OF assms]) simp
  show "digit_char d \<noteq> CHR ''+''" by (rule digit_char_neq [OF assms]) simp
  show "digit_char d \<noteq> CHR ''x''" by (rule digit_char_neq [OF assms]) simp
  show "digit_char d \<noteq> CHR ''X''" by (rule digit_char_neq [OF assms]) simp
  have "digit_char d \<noteq> CHR '' ''" by (rule digit_char_neq [OF assms]) simp
  moreover have "digit_char d \<noteq> CHR 0x09" by (rule digit_char_neq [OF assms]) simp
  moreover have "digit_char d \<noteq> CHR 0x0A" by (rule digit_char_neq [OF assms]) simp
  moreover have "digit_char d \<noteq> CHR 0x0B" by (rule digit_char_neq [OF assms]) simp
  moreover have "digit_char d \<noteq> CHR 0x0C" by (rule digit_char_neq [OF assms]) simp
  moreover have "digit_char d \<noteq> CHR 0x0D" by (rule digit_char_neq [OF assms]) simp
  ultimately show "\<not> is_space (digit_char d)" unfolding is_space_def by blast
qed

lemma digits_small: "n < 10 \<Longrightarrow> digits n = [digit_char n]"
  by (subst digits.simps) simp

lemma digits_large: "\<not> n < 10 \<Longrightarrow> digits n = digits (n div 10) @ [digit_char (n mod 10)]"
  by (subst digits.simps) simp

lemma digits_chars: "c \<in> set (digits n) \<Longrightarrow> \<exists>d<10. c = digit_char d"
proof (induction n rule: digits.induct)
  case (1 n)
  show ?case
  proof (cases "n < 10")
    case True
    with "1.prems" show ?thesis by (auto simp: digits_small)
  next
    case False
    with "1.prems" have "c \<in> set (digits (n div 10)) \<or> c = digit_char (n mod 10)"
      by (auto simp: digits_large)
    then show ?thesis
    proof
      assume "c \<in> set (digits (n div 10))"
      with "1.IH" False show ?thesis by simp
    next
      assume "c = digit_char (n mod 10)"
      moreover have "n mod 10 < 10" by simp
      ultimately show ?thesis by blast
    qed
  qed
qed

lemma digits_nonempty: "digits n \<noteq> []"
  by (cases "n < 10") (simp_all add: digits_small digits_large)

lemma parse_digits_step:
  "d < 10 \<Longrightarrow> parse_digits 10 acc (digit_char d # rest) =
     parse_digits 10 (Some ((case acc of None \<Rightarrow> 0 | Some a \<Rightarrow> a) * 10 + d)) rest"
  by (simp add: digit_val_digit_char)

text \<open>Reading the decimal digits of \<open>n\<close> appends them to what has been read so far.\<close>

lemma parse_digits_digits:
  "parse_digits 10 acc (digits n @ rest) =
     parse_digits 10 (Some ((case acc of None \<Rightarrow> 0 | Some a \<Rightarrow> a) * 10 ^ length (digits n) + n)) rest"
proof (induction n arbitrary: acc rest rule: digits.induct)
  case (1 n)
  show ?case
  proof (cases "n < 10")
    case True
    then show ?thesis by (simp add: digits_small digit_val_digit_char)
  next
    case False
    note e = digits_large [OF False]
    have m: "n mod 10 < 10" by simp
    have "parse_digits 10 acc (digits n @ rest) =
          parse_digits 10 acc (digits (n div 10) @ (digit_char (n mod 10) # rest))"
      by (simp add: e)
    also have "\<dots> = parse_digits 10
        (Some ((case acc of None \<Rightarrow> 0 | Some a \<Rightarrow> a) * 10 ^ length (digits (n div 10)) + n div 10))
        (digit_char (n mod 10) # rest)"
      by (rule "1.IH" [OF False])
    also have "\<dots> = parse_digits 10
        (Some (((case acc of None \<Rightarrow> 0 | Some a \<Rightarrow> a) * 10 ^ length (digits (n div 10)) + n div 10) * 10
               + n mod 10))
        rest"
      by (simp only: parse_digits_step [OF m] option.case)
    also have "((case acc of None \<Rightarrow> 0 | Some a \<Rightarrow> a) * 10 ^ length (digits (n div 10)) + n div 10) * 10
                 + n mod 10
       = (case acc of None \<Rightarrow> 0 | Some a \<Rightarrow> a) * 10 ^ length (digits n) + n"
      by (simp add: e algebra_simps)
    finally show ?thesis .
  qed
qed

lemma parse_digits_all: "parse_digits 10 None (digits n) = Some n"
  using parse_digits_digits [of None n "[]"] by simp

lemma digits_no_x: "CHR ''x'' \<notin> set (digits n)" "CHR ''X'' \<notin> set (digits n)"
proof -
  show "CHR ''x'' \<notin> set (digits n)"
  proof
    assume "CHR ''x'' \<in> set (digits n)"
    then obtain d where "d < 10" "CHR ''x'' = digit_char d" using digits_chars by blast
    then show False using digit_char_not_special(4) [of d] by simp
  qed
  show "CHR ''X'' \<notin> set (digits n)"
  proof
    assume "CHR ''X'' \<in> set (digits n)"
    then obtain d where "d < 10" "CHR ''X'' = digit_char d" using digits_chars by blast
    then show False using digit_char_not_special(5) [of d] by simp
  qed
qed

lemma no_hex_prefix: "\<not> prefix ''0x'' (digits n)" "\<not> prefix ''0X'' (digits n)"
proof -
  show "\<not> prefix ''0x'' (digits n)"
  proof
    assume "prefix ''0x'' (digits n)"
    then obtain r where "digits n = ''0x'' @ r" by (auto simp: prefix_def)
    then have "CHR ''x'' \<in> set (digits n)" by simp
    then show False using digits_no_x(1) by simp
  qed
  show "\<not> prefix ''0X'' (digits n)"
  proof
    assume "prefix ''0X'' (digits n)"
    then obtain r where "digits n = ''0X'' @ r" by (auto simp: prefix_def)
    then have "CHR ''X'' \<in> set (digits n)" by simp
    then show False using digits_no_x(2) by simp
  qed
qed

lemma parse_unsigned_digits: "parse_unsigned (digits n) = Some n"
  by (simp add: parse_unsigned_def no_hex_prefix parse_digits_all)

lemma digits_hd: "\<exists>d cs. d < 10 \<and> digits n = digit_char d # cs"
proof -
  obtain c cs where e: "digits n = c # cs" using digits_nonempty by (cases "digits n") auto
  then have "c \<in> set (digits n)" by simp
  then obtain d where "d < 10" "c = digit_char d" using digits_chars by blast
  with e show ?thesis by blast
qed

lemma parseInt_digits: "parseInt (digits n) = Num (int n)"
proof -
  obtain d cs where d: "d < 10" and e: "digits n = digit_char d # cs"
    using digits_hd by blast
  have u: "parse_unsigned (digit_char d # cs) = Some n"
    using parse_unsigned_digits [of n] e by simp
  show ?thesis
    unfolding parseInt_def e Let_def
    by (simp add: digit_char_not_special [OF d] u)
qed

lemma parseInt_minus_digits: "parseInt (CHR ''-'' # digits n) = Num (- int n)"
proof -
  have s: "\<not> is_space CHR ''-''" by (simp add: is_space_def)
  show ?thesis
    unfolding parseInt_def Let_def
    by (simp add: s parse_unsigned_digits)
qed

text \<open>\<^verbatim>\<open>parseInt\<close> reads back every number from its decimal rendering.\<close>

lemma parseInt_show_int: "parseInt (show_int i) = Num i"
  by (simp add: show_int_def parseInt_digits parseInt_minus_digits)

section \<open>The list of page links\<close>

lemma page_loop_upto:
  "page_loop cur i m html = html @ map (\<lambda>k. page cur (PageNum k)) [i..m]"
proof (induction cur i m html rule: page_loop.induct)
  case (1 cur i pageMax html)
  show ?case
  proof (cases "i \<le> pageMax")
    case True
    then have "[i..pageMax] = i # [i + 1..pageMax]" by (simp add: upto_rec1)
    with True "1" show ?thesis by (subst page_loop.simps) simp
  next
    case False
    then show ?thesis by (subst page_loop.simps) simp
  qed
qed

lemma label_page [simp]: "label (page cur l) = l"
  by (simp add: page_def)

lemma active_page [simp]: "active (page cur l) = label_eq l cur"
  by (simp add: page_def)

lemma href_page: "href (page cur l) = (case l of PageNum n \<Rightarrow> Some (''page:'' @ show_int n) | Dots \<Rightarrow> None)"
  by (cases l) (simp_all add: page_def)

lemma render_links_pages:
  "render_links (Num c) tp =
     map (page (Num c))
       (PageNum 1 # (if c - 10 > 2 then [Dots] else []) @
        map PageNum [max 2 (c - 10)..min tp (c + 10)] @
        (if c + 10 < tp then [Dots, PageNum tp] else []))"
  by (simp add: render_links_def Let_def page_loop_upto comp_def)

lemma labels_render:
  "map label (render_links (Num c) tp) =
     PageNum 1 # (if c - 10 > 2 then [Dots] else []) @
     map PageNum [max 2 (c - 10)..min tp (c + 10)] @
     (if c + 10 < tp then [Dots, PageNum tp] else [])"
  by (simp add: render_links_pages comp_def)

lemma rendered_eq: "rendered b = render_links (config_currentPage b) (config_totalPages b)"
  by (simp add: rendered_def render_def bind_def Let_def split: option.splits)

lemma filter_upto_eq:
  "filter (\<lambda>k. k = c) [i..j] = (if i \<le> c \<and> c \<le> j then [c] else [])"
proof (induction i j rule: upto.induct)
  case (1 i j)
  show ?case
  proof (cases "i \<le> j")
    case True
    then have "[i..j] = i # [i + 1..j]" by (simp add: upto_rec1)
    with True "1" show ?thesis by auto
  next
    case False
    then show ?thesis by simp
  qed
qed

lemma filter_PageNum_upto:
  "filter (\<lambda>l. l = PageNum c) (map PageNum [i..j]) = (if i \<le> c \<and> c \<le> j then [PageNum c] else [])"
  using filter_upto_eq [of c i j] by (simp add: filter_map comp_def)

lemma label_eq_Num: "label_eq l (Num c) = (l = PageNum c)"
  by (cases l) auto

lemma active_labels:
  "map label (filter active (render_links (Num c) tp)) =
     filter (\<lambda>l. l = PageNum c)
       (PageNum 1 # (if c - 10 > 2 then [Dots] else []) @
        map PageNum [max 2 (c - 10)..min tp (c + 10)] @
        (if c + 10 < tp then [Dots, PageNum tp] else []))"
  by (simp only: render_links_pages) (simp add: filter_map comp_def label_eq_Num)

lemma contiguous_upto:
  "contiguous (map PageNum [i..j] @ r) =
     (if i \<le> j then contiguous (PageNum j # r) else contiguous r)"
proof (induction i j rule: upto.induct)
  case (1 i j)
  show ?case
  proof (cases "i \<le> j")
    case True
    then have e: "[i..j] = i # [i + 1..j]" by (simp add: upto_rec1)
    show ?thesis
    proof (cases "i + 1 \<le> j")
      case le: True
      then have e2: "[i + 1..j] = (i + 1) # [i + 1 + 1..j]" by (rule upto_rec1)
      have "contiguous (PageNum i # map PageNum [i + 1..j] @ r) =
            contiguous (map PageNum [i + 1..j] @ r)"
        by (simp add: e2)
      also have "\<dots> = contiguous (PageNum j # r)" using "1" True le by simp
      finally show ?thesis using True e by simp
    next
      case False
      with True have "i = j" by simp
      with e False show ?thesis by simp
    qed
  next
    case False
    then show ?thesis by simp
  qed
qed

lemma contiguous_first:
  "contiguous (PageNum 1 # map PageNum [2..j] @ r) =
     (if 2 \<le> j then contiguous (PageNum j # r) else contiguous (PageNum 1 # r))"
proof (cases "2 \<le> j")
  case True
  then have e: "[2..j] = 2 # [2 + 1..j]" by (rule upto_rec1)
  have "contiguous (PageNum 1 # map PageNum [2..j] @ r) = contiguous (map PageNum [2..j] @ r)"
    by (simp add: e)
  then show ?thesis using True by (simp add: contiguous_upto)
next
  case False
  then show ?thesis by simp
qed

lemma upto_2_split: "2 \<le> j \<Longrightarrow> [2..j] = 2 # [3..j]"
  using upto_rec1 [of 2 j] by simp

lemma render_links_page: "l \<in> set (render_links cur tp) \<Longrightarrow> l = page cur (label l)"
proof (cases cur)
  case NaN
  assume "l \<in> set (render_links cur tp)"
  with NaN show ?thesis by (simp add: render_links_def)
next
  case (Num c)
  assume "l \<in> set (render_links cur tp)"
  with Num obtain x where "l = page (Num c) x" by (auto simp only: render_links_pages set_map)
  with Num show ?thesis by simp
qed

lemma href_rendered:
  assumes "l \<in> set (render_links cur tp)"
  shows "href l = (case label l of PageNum n \<Rightarrow> Some (''page:'' @ show_int n) | Dots \<Rightarrow> None)"
proof -
  have "l = page cur (label l)" using assms by (rule render_links_page)
  then have "href l = href (page cur (label l))" by simp
  then show ?thesis by (simp only: href_page)
qed

lemma render_container:
  "config_container b = Some old \<Longrightarrow>
   fst (render b) = b\<lparr>config_container := Some (render_links (config_currentPage b) (config_totalPages b)),
                      dollar := True\<rparr>"
  by (simp add: render_def bind_def Let_def)

section \<open>Classes, requests and tables\<close>

lemma toggleClass_twice: "toggleClass c (toggleClass c cs) = cs"
  by (auto simp: toggleClass_def)

lemma setClass_twice: "setClass c s (setClass c s' cs) = setClass c s cs"
  by (auto simp: setClass_def)

lemma setClass_same: "(setClass c s cs = cs) = ((c \<in> cs) = s)"
  by (auto simp: setClass_def)

lemma lists_toggleBranch: "target_lists (toggleBranch b) = map (toggleClass ''open'') (target_lists b)"
  by (simp add: toggleBranch_def Let_def)

lemma toggle_toggleBranch:
  "toggle (toggleBranch b) =
     setClass ''is-open'' (hasClass ''open'' (map (toggleClass ''open'') (target_lists b))) (toggle b)"
  by (simp add: toggleBranch_def Let_def)

lemma lists_toggleBranch_twice: "target_lists (toggleBranch (toggleBranch b)) = target_lists b"
  by (simp add: lists_toggleBranch toggleClass_twice comp_def)

lemma toggle_toggleBranch_twice:
  "toggle (toggleBranch (toggleBranch b)) = setClass ''is-open'' (hasClass ''open'' (target_lists b)) (toggle b)"
  by (simp add: toggle_toggleBranch lists_toggleBranch toggleClass_twice comp_def setClass_twice)

lemma url_nonempty: "chunk_url w pid pg \<noteq> []" "filtered_url w pid f \<noteq> []"
  by (simp_all add: chunk_url_def filtered_url_def)

lemma loadChunk_loader:
  "loader v \<Longrightarrow> loadChunk w pid f v =
     Inr (v\<lparr>currentPid := pid,
            pending := pending v @ [if truthy f then filtered_url w pid f
                                    else chunk_url w pid (currentPage v)],
            events := events v @ [LoaderStart, Get (if truthy f then filtered_url w pid f
                                    else chunk_url w pid (currentPage v))]\<rparr>)"
  by (simp add: loadChunk_def Let_def emit_def url_nonempty)

lemma loadChunk_no_loader:
  "\<not> loader v \<Longrightarrow> loadChunk w pid f v = Inl (TypeError, v\<lparr>currentPid := pid\<rparr>)"
  by (simp add: loadChunk_def Let_def url_nonempty)

lemma renderTable_element:
  "renderTable (Some (Element t # ns)) v =
     Inr (v\<lparr>behavior_table :=
              Some (Element (t\<lparr>table_classes :=
                       insert ''cuckoo-table'' (table_classes t - {''table'', ''table-bordered''})\<rparr>),
                    if body t = [] then [NoResultRow (columns t)] else []),
            events := events v @ [TableReplaced, LoadedShown, UnloadedHidden]\<rparr>)"
  by (simp add: renderTable_def Let_def emit_def)

lemma renderTable_text:
  "renderTable (Some (TextNode s # ns)) v =
     Inr (v\<lparr>behavior_table := Some (TextNode s, []),
            events := events v @ [TableReplaced, LoadedShown, UnloadedHidden]\<rparr>)"
  by (simp add: renderTable_def Let_def emit_def)

lemma renderTable_empty:
  "renderTable (Some []) v = Inr (v\<lparr>events := events v @ [LoadedShown, UnloadedHidden]\<rparr>)"
  by (simp add: renderTable_def Let_def emit_def)

lemma renderTable_null: "renderTable None v = Inl (TypeError, v)"
  by (simp add: renderTable_def)

text \<open>Whatever the response, \<^verbatim>\<open>renderTable\<close> touches one field and appends three events at most.\<close>

lemma renderTable_cases:
  "\<exists>bt es. after (renderTable parsed v) = v\<lparr>behavior_table := bt, events := events v @ es\<rparr>
     \<and> set es \<subseteq> {TableReplaced, LoadedShown, UnloadedHidden}"
proof (cases parsed)
  case None
  have "v = v\<lparr>behavior_table := behavior_table v, events := events v @ []\<rparr>" by simp
  then have "\<exists>bt es. v = v\<lparr>behavior_table := bt, events := events v @ es\<rparr>
     \<and> set es \<subseteq> {TableReplaced, LoadedShown, UnloadedHidden}"
    by (metis empty_set empty_subsetI)
  with None show ?thesis by (simp add: renderTable_null after_def)
next
  case (Some nodes)
  show ?thesis
  proof (cases nodes)
    case Nil
    have "v\<lparr>events := events v @ [LoadedShown, UnloadedHidden]\<rparr> =
          v\<lparr>behavior_table := behavior_table v, events := events v @ [LoadedShown, UnloadedHidden]\<rparr>"
      by simp
    moreover have "set [LoadedShown, UnloadedHidden] \<subseteq> {TableReplaced, LoadedShown, UnloadedHidden}"
      by simp
    ultimately have "\<exists>bt es. v\<lparr>events := events v @ [LoadedShown, UnloadedHidden]\<rparr> =
        v\<lparr>behavior_table := bt, events := events v @ es\<rparr>
        \<and> set es \<subseteq> {TableReplaced, LoadedShown, UnloadedHidden}"
      by blast
    with Some Nil show ?thesis by (simp add: renderTable_empty after_def)
  next
    case (Cons n ns)
    have s: "set [TableReplaced, LoadedShown, UnloadedHidden]
               \<subseteq> {TableReplaced, LoadedShown, UnloadedHidden}"
      by simp
    show ?thesis
    proof (cases n)
      case (Element t)
      with Some Cons s show ?thesis
        unfolding after_def by (simp only: renderTable_element sum.case) blast
    next
      case (TextNode x)
      with Some Cons s show ?thesis
        unfolding after_def by (simp only: renderTable_text sum.case) blast
    qed
  qed
qed

section \<open>What a handler can do to the loader and the requests\<close>

lemma calmI:
  assumes "loader v' = loader v" and "events v' = events v @ es" and "LoaderStop \<notin> set es"
    and "\<not> loader v \<Longrightarrow> list_all (\<lambda>e. \<not> is_request e) es \<and> length (pending v') \<le> length (pending v)"
  shows "calm v v'"
  using assms by (auto simp: calm_def)

lemma calmD:
  assumes "calm v v'"
  shows "loader v' = loader v"
    and "\<exists>es. events v' = events v @ es \<and> LoaderStop \<notin> set es
            \<and> (\<not> loader v \<longrightarrow> list_all (\<lambda>e. \<not> is_request e) es \<and> length (pending v') \<le> length (pending v))"
proof -
  from assms show "loader v' = loader v" by (simp add: calm_def)
  let ?es = "drop (length (events v)) (events v')"
  from assms have "take (length (events v)) (events v') = events v" by (simp add: calm_def)
  then have "events v' = events v @ ?es" by (metis append_take_drop_id)
  moreover from assms have "LoaderStop \<notin> set ?es" by (simp add: calm_def)
  moreover from assms have "\<not> loader v \<longrightarrow> list_all (\<lambda>e. \<not> is_request e) ?es \<and> length (pending v') \<le> length (pending v)"
    by (auto simp: calm_def)
  ultimately show "\<exists>es. events v' = events v @ es \<and> LoaderStop \<notin> set es
            \<and> (\<not> loader v \<longrightarrow> list_all (\<lambda>e. \<not> is_request e) es \<and> length (pending v') \<le> length (pending v))"
    by blast
qed

lemma calm_refl: "calm v v"
  by (rule calmI [where es = "[]"]) simp_all

lemma calm_trans:
  assumes "calm a b" and "calm b c"
  shows "calm a c"
proof -
  from calmD [OF assms(1)] obtain es where
    l1: "loader b = loader a" and e1: "events b = events a @ es" and s1: "LoaderStop \<notin> set es"
    and q1: "\<not> loader a \<longrightarrow> list_all (\<lambda>e. \<not> is_request e) es \<and> length (pending b) \<le> length (pending a)"
    by blast
  from calmD [OF assms(2)] obtain es' where
    l2: "loader c = loader b" and e2: "events c = events b @ es'" and s2: "LoaderStop \<notin> set es'"
    and q2: "\<not> loader b \<longrightarrow> list_all (\<lambda>e. \<not> is_request e) es' \<and> length (pending c) \<le> length (pending b)"
    by blast
  show ?thesis
  proof (rule calmI [where es = "es @ es'"])
    show "loader c = loader a" using l1 l2 by simp
    show "events c = events a @ es @ es'" using e1 e2 by simp
    show "LoaderStop \<notin> set (es @ es')" using s1 s2 by simp
    show "list_all (\<lambda>e. \<not> is_request e) (es @ es') \<and> length (pending c) \<le> length (pending a)" if "\<not> loader a"
      using that q1 q2 l1 by simp
  qed
qed

lemma calm_emit:
  "LoaderStop \<notin> set es \<Longrightarrow> list_all (\<lambda>e. \<not> is_request e) es \<Longrightarrow> calm v (emit es v)"
  by (rule calmI [where es = es]) (simp_all add: emit_def)

lemma calm_fields:
  "loader v' = loader v \<Longrightarrow> events v' = events v \<Longrightarrow> pending v' = pending v \<Longrightarrow> calm v v'"
  by (rule calmI [where es = "[]"]) simp_all

lemma calm_loadChunk: "calm v (after (loadChunk w pid f v))"
proof (cases "loader v")
  case True
  show ?thesis
    by (rule calmI [where es = "[LoaderStart, Get (if truthy f then filtered_url w pid f
          else chunk_url w pid (currentPage v))]"])
       (simp_all add: True loadChunk_def Let_def emit_def url_nonempty after_def)
next
  case False
  show ?thesis
    by (rule calm_fields) (simp_all add: False loadChunk_def Let_def url_nonempty after_def)
qed

lemma calm_renderTable: "calm v (after (renderTable parsed v))"
proof -
  from renderTable_cases [of parsed v] obtain bt es where
    a: "after (renderTable parsed v) = v\<lparr>behavior_table := bt, events := events v @ es\<rparr>"
    and e: "set es \<subseteq> {TableReplaced, LoadedShown, UnloadedHidden}"
    by blast
  show ?thesis
  proof (rule calmI [where es = es])
    show "loader (after (renderTable parsed v)) = loader v" by (simp add: a)
    show "events (after (renderTable parsed v)) = events v @ es" by (simp add: a)
    show "LoaderStop \<notin> set es" using e by auto
    show "list_all (\<lambda>e. \<not> is_request e) es
        \<and> length (pending (after (renderTable parsed v))) \<le> length (pending v)"
      using e by (auto simp: a list_all_iff)
  qed
qed

lemma calm_renderBar: "calm v (after (renderBar w pid cur v))"
proof (cases "bar_of v")
  case None
  then show ?thesis
    by (intro calm_fields) (simp_all add: renderBar_def Let_def after_def)
next
  case (Some b)
  show ?thesis
  proof (cases "dollar b")
    case True
    with Some show ?thesis
      by (intro calmI [where es = "[BarEmptied]"])
         (simp_all add: renderBar_def Let_def after_def destroy_def emit_def)
  next
    case False
    with Some show ?thesis
      by (intro calm_fields) (simp_all add: renderBar_def Let_def after_def destroy_def)
  qed
qed

lemma calm_populate: "calm v (after (populate w el v))"
proof -
  let ?t = "\<lambda>x vv. emit [SetText ''process-detail-pid'' x] vv"
  have e: "\<And>k x vv. calm vv (emit [SetText k x] vv)" by (rule calm_emit) simp_all
  show ?thesis
  proof (cases "parseProcessData w el")
    case (Inl err)
    then show ?thesis by (simp add: populate_def after_def calm_refl)
  next
    case (Inr data)
    show ?thesis
    proof (cases "get_prop data ''pid''")
      case (Inl err)
      with Inr show ?thesis by (simp add: populate_def after_def calm_refl)
    next
      case pid: (Inr pid)
      let ?v1 = "emit [SetText ''process-detail-pid'' pid] v"
      have c1: "calm v ?v1" by (rule e)
      show ?thesis
      proof (cases "get_prop data ''ppid''")
        case (Inl err)
        with Inr pid c1 show ?thesis by (simp add: populate_def after_def Let_def)
      next
        case ppid: (Inr ppid)
        let ?v2 = "emit [SetText ''process-detail-ppid'' ppid] ?v1"
        have c2: "calm v ?v2" using c1 e by (rule calm_trans)
        show ?thesis
        proof (cases "get_prop data ''name''")
          case (Inl err)
          with Inr pid ppid c2 show ?thesis by (simp add: populate_def after_def Let_def)
        next
          case name: (Inr name)
          let ?v3 = "emit [SetText ''process-detail-name'' name] ?v2"
          have c3: "calm v ?v3" using c2 e by (rule calm_trans)
          have "calm ?v3 (after (renderBar w pid (JNum 1) ?v3))" by (rule calm_renderBar)
          with c3 have "calm v (after (renderBar w pid (JNum 1) ?v3))" by (rule calm_trans)
          with Inr pid ppid name show ?thesis by (simp add: populate_def Let_def)
        qed
      qed
    qed
  qed
qed

lemma after_Inr [simp]: "after (Inr v) = v"
  by (simp add: after_def)

lemma after_Inl [simp]: "after (Inl (e, v)) = v"
  by (simp add: after_def)

lemma calm_destroy_bar:
  "calm v (after (case bar_of v of
              None \<Rightarrow> Inr v
            | Some b \<Rightarrow>
                (case destroy b of
                   Inl e \<Rightarrow> Inl (e, v)
                 | Inr b' \<Rightarrow> Inr (emit [BarEmptied] (v\<lparr>bar_of := Some b'\<rparr>)))))"
proof (cases "bar_of v")
  case None
  then show ?thesis by (simp add: calm_refl)
next
  case (Some b)
  show ?thesis
  proof (cases "dollar b")
    case True
    with Some show ?thesis
      by (intro calmI [where es = "[BarEmptied]"]) (simp_all add: destroy_def emit_def)
  next
    case False
    with Some show ?thesis by (simp add: destroy_def calm_refl)
  qed
qed

lemma calm_click:
  "calm v (after (click (onPaginate w p) (\<lambda>b v. Inr v) i b v))"
proof -
  have g: "\<And>n. calm v (after (goto (onPaginate w p) n b v))"
  proof -
    fix n
    let ?b = "fst (render (b\<lparr>config_currentPage := parseInt n\<rparr>))"
    let ?v = "v\<lparr>bar_of := Some ?b, currentPage := JStr n\<rparr>"
    have "calm v ?v" by (rule calm_fields) simp_all
    moreover have "calm ?v (after (loadChunk w p JUndefined ?v))" by (rule calm_loadChunk)
    ultimately have "calm v (after (loadChunk w p JUndefined ?v))" by (rule calm_trans)
    then show "calm v (after (goto (onPaginate w p) n b v))"
      by (simp add: goto_def onPaginate_def Let_def)
  qed
  show ?thesis
    by (simp add: click_def calm_refl g split: option.splits)
qed

lemma calm_step: "\<not> is_response a \<Longrightarrow> calm v (after (step w a v))"
proof (cases a)
  case (LoadClick d script)
  have c1: "calm v (after (loadChunk w d JUndefined v))" by (rule calm_loadChunk)
  show ?thesis
  proof (cases "loadChunk w d JUndefined v")
    case (Inl e)
    with c1 LoadClick show ?thesis by simp
  next
    case (Inr v1)
    with c1 have c1': "calm v v1" by simp
    have c2: "calm v1 (after (populate w (Some script) v1))" by (rule calm_populate)
    show ?thesis
    proof (cases "populate w (Some script) v1")
      case (Inl e)
      with c1' c2 LoadClick Inr show ?thesis by (auto intro: calm_trans)
    next
      case v2: (Inr v2)
      with c2 have "calm v1 v2" by simp
      moreover have "calm v2 (emit [TagsCleared] v2)" by (rule calm_emit) simp_all
      ultimately have "calm v (emit [TagsCleared] v2)" using c1' by (blast intro: calm_trans)
      with LoadClick Inr v2 show ?thesis by simp
    qed
  qed
next
  case (FilterClick f)
  let ?d = "case bar_of v of
              None \<Rightarrow> Inr v
            | Some b \<Rightarrow>
                (case destroy b of
                   Inl e \<Rightarrow> Inl (e, v)
                 | Inr b' \<Rightarrow> Inr (emit [BarEmptied] (v\<lparr>bar_of := Some b'\<rparr>)))"
  have c1: "calm v (after ?d)" by (rule calm_destroy_bar)
  show ?thesis
  proof (cases ?d)
    case (Inl e)
    with c1 FilterClick show ?thesis by simp
  next
    case (Inr v1)
    with c1 have c1': "calm v v1" by simp
    have c2: "calm v1 (after (loadChunk w (currentPid v1) (JStr f) v1))" by (rule calm_loadChunk)
    show ?thesis
    proof (cases "loadChunk w (currentPid v1) (JStr f) v1")
      case (Inl e)
      with c1' c2 FilterClick Inr show ?thesis by (auto intro: calm_trans)
    next
      case v2: (Inr v2)
      with c2 have "calm v1 v2" by simp
      moreover have "calm v2 (emit [TagsCleared, TagActivated f] v2)" by (rule calm_emit) simp_all
      ultimately have "calm v (emit [TagsCleared, TagActivated f] v2)"
        using c1' by (blast intro: calm_trans)
      with FilterClick Inr v2 show ?thesis by simp
    qed
  qed
next
  case (PageClick i)
  then show ?thesis by (simp add: calm_refl calm_click split: option.splits)
next
  case ResetClick
  have "calm v (emit [TagsCleared] v)" by (rule calm_emit) simp_all
  moreover have "calm (emit [TagsCleared] v)
      (after (loadChunk w (currentPid v) JUndefined (emit [TagsCleared] v)))"
    by (rule calm_loadChunk)
  ultimately have "calm v (after (loadChunk w (currentPid v) JUndefined (emit [TagsCleared] v)))"
    by (rule calm_trans)
  with ResetClick show ?thesis by (simp add: reset_click_def calm_refl)
next
  case (ToggleClick i)
  then show ?thesis by (auto intro: calm_fields calm_refl)
next
  case (Respond i res)
  assume "\<not> is_response a"
  with Respond show ?thesis by simp
next
  case (Fail i)
  show ?thesis
  proof (cases "i < length (pending v)")
    case True
    have "calm v (v\<lparr>pending := remove_nth i (pending v)\<rparr>)"
    proof (rule calmI [where es = "[]"])
      show "list_all (\<lambda>e. \<not> is_request e) [] \<and>
        length (pending (v\<lparr>pending := remove_nth i (pending v)\<rparr>)) \<le> length (pending v)"
        by (simp add: remove_nth_def)
    qed simp_all
    with Fail True show ?thesis by simp
  next
    case False
    with Fail show ?thesis by (simp add: calm_refl)
  qed
next
  case (CallLoadChunk pid f)
  then show ?thesis by (simp add: calm_loadChunk)
next
  case (CallPopulate el)
  then show ?thesis by (simp add: calm_populate)
next
  case (CallRenderTable res)
  then show ?thesis by (simp add: calm_renderTable)
next
  case (CallRenderBar pid cur)
  then show ?thesis by (simp add: calm_renderBar)
qed

lemma calm_run: "list_all (\<lambda>a. \<not> is_response a) acts \<Longrightarrow> calm v (run w acts v)"
proof (induction acts arbitrary: v)
  case Nil
  show ?case by (simp add: calm_refl)
next
  case (Cons a acts)
  then have "calm v (after (step w a v))" by (simp add: calm_step)
  moreover from Cons have "calm (after (step w a v)) (run w acts (after (step w a v)))" by simp
  ultimately show ?case by (simp add: calm_trans)
qed

lemma loading_from_append:
  "loading_from st (es @ es') = loading_from (loading_from st es) es'"
  by (induction st es rule: loading_from.induct) simp_all

lemma loading_from_True: "LoaderStop \<notin> set es \<Longrightarrow> loading_from True es"
  by (induction True es rule: loading_from.induct) simp_all

lemma calm_loading:
  assumes "calm v v'" and "loading v"
  shows "loading v'"
proof -
  from calmD(2) [OF assms(1)] obtain es where "events v' = events v @ es" "LoaderStop \<notin> set es"
    by blast
  with assms(2) show ?thesis
    by (simp add: loading_def loading_from_append loading_from_True)
qed

lemma noloader_step:
  assumes "\<not> loader v" and "pending v = []"
  shows "calm v (after (step w a v))"
proof (cases "is_response a")
  case True
  then obtain i res where "a = Respond i res" by (cases a) simp_all
  with assms(2) show ?thesis by (simp add: calm_refl)
next
  case False
  then show ?thesis by (rule calm_step)
qed

lemma noloader_calm:
  assumes "calm v v'" and "\<not> loader v" and "pending v = []"
    and "list_all (\<lambda>e. \<not> is_request e) (events v)"
  shows "\<not> loader v' \<and> pending v' = [] \<and> list_all (\<lambda>e. \<not> is_request e) (events v')"
proof -
  from calmD [OF assms(1)] assms(2) obtain es where
    "loader v' = loader v" "events v' = events v @ es"
    "list_all (\<lambda>e. \<not> is_request e) es" "length (pending v') \<le> length (pending v)"
    by blast
  with assms(2-4) show ?thesis by simp
qed

lemma noloader_run:
  assumes "\<not> loader v" and "pending v = []" and "list_all (\<lambda>e. \<not> is_request e) (events v)"
  shows "\<not> loader (run w acts v) \<and> pending (run w acts v) = []
       \<and> list_all (\<lambda>e. \<not> is_request e) (events (run w acts v))"
  using assms
proof (induction acts arbitrary: v)
  case Nil
  then show ?case by simp
next
  case (Cons a acts)
  have "calm v (after (step w a v))" using Cons.prems(1,2) by (rule noloader_step)
  from noloader_calm [OF this Cons.prems]
  have "\<not> loader (after (step w a v))" "pending (after (step w a v)) = []"
    "list_all (\<lambda>e. \<not> is_request e) (events (after (step w a v)))"
    by simp_all
  from Cons.IH [OF this] show ?case by simp
qed

section \<open>The bar of a view is always bound\<close>

lemma dollar_render: "config_container b = Some old \<Longrightarrow> dollar (fst (render b))"
  by (simp add: render_container)

lemma dollar_PaginationBar: "dollar (PaginationBar (Some old) cp tp)"
  by (simp add: PaginationBar_def dollar_render)

lemma config_PaginationBar:
  "config_currentPage (PaginationBar (Some old) None tp) = Num 1"
  "config_container (PaginationBar (Some old) None tp) =
     Some (render_links (Num 1) (case tp of None \<Rightarrow> 40 | Some t \<Rightarrow> t))"
  by (simp_all add: PaginationBar_def render_container)

lemma bar_of_loadChunk: "bar_of (after (loadChunk w pid f v)) = bar_of v"
  by (simp add: loadChunk_def Let_def emit_def url_nonempty)

lemma renderBar_bound:
  assumes "bar_bound v"
  shows "renderBar w pid cur v =
     Inr (v\<lparr>currentPage := cur,
            bar_of := Some (PaginationBar (Some []) None
                              (PROCESS_TREE_PAGINATION_INFO w (to_string pid))),
            bar_pid := pid,
            events := events v @ (if bar_of v = None then [] else [BarEmptied])\<rparr>)"
proof (cases "bar_of v")
  case None
  then show ?thesis by (simp add: renderBar_def Let_def)
next
  case (Some b)
  with assms have "dollar b" by (simp add: bar_bound_def)
  with Some show ?thesis by (simp add: renderBar_def Let_def destroy_def emit_def)
qed

lemma bar_bound_renderBar: "bar_bound v \<Longrightarrow> bar_bound (after (renderBar w pid cur v))"
  by (simp add: renderBar_bound bar_bound_def dollar_PaginationBar)

lemma bar_bound_emit: "bar_bound (emit es v) = bar_bound v"
  by (simp add: bar_bound_def emit_def)

lemma bar_bound_loadChunk: "bar_bound v \<Longrightarrow> bar_bound (after (loadChunk w pid f v))"
  by (simp add: bar_bound_def bar_of_loadChunk)

lemma populate_object:
  assumes "bar_bound v" and "parseProcessData w el = Inr (JObj kvs)"
  shows "populate w el v =
     Inr (v\<lparr>currentPage := JNum 1,
            bar_of := Some (PaginationBar (Some []) None
                              (PROCESS_TREE_PAGINATION_INFO w (to_string (property kvs ''pid'')))),
            bar_pid := property kvs ''pid'',
            events := events v @
              [SetText ''process-detail-pid'' (property kvs ''pid''),
               SetText ''process-detail-ppid'' (property kvs ''ppid''),
               SetText ''process-detail-name'' (property kvs ''name'')] @
              (if bar_of v = None then [] else [BarEmptied])\<rparr>)"
proof -
  let ?v3 = "emit [SetText ''process-detail-name'' (property kvs ''name'')]
              (emit [SetText ''process-detail-ppid'' (property kvs ''ppid'')]
                (emit [SetText ''process-detail-pid'' (property kvs ''pid'')] v))"
  have b: "bar_bound ?v3" using assms(1) by (simp add: bar_bound_emit)
  have "populate w el v = renderBar w (property kvs ''pid'') (JNum 1) ?v3"
    using assms(2) by (simp add: populate_def Let_def)
  also note renderBar_bound [OF b]
  finally show ?thesis by (simp add: emit_def)
qed

lemma bar_bound_populate: "bar_bound v \<Longrightarrow> bar_bound (after (populate w el v))"
proof -
  assume b: "bar_bound v"
  have e: "\<And>es. bar_bound (emit es v)" using b by (simp add: bar_bound_emit)
  show ?thesis
    using b
    by (auto simp: populate_def Let_def bar_bound_emit bar_bound_renderBar
        split: sum.splits)
qed

lemma bar_bound_renderTable: "bar_bound (after (renderTable parsed v)) = bar_bound v"
proof -
  from renderTable_cases [of parsed v] obtain bt es where
    "after (renderTable parsed v) = v\<lparr>behavior_table := bt, events := events v @ es\<rparr>"
    by blast
  then show ?thesis by (simp add: bar_bound_def)
qed

lemma bar_bound_click:
  assumes "bar_bound v"
  shows "bar_bound (after (click (onPaginate w p) (\<lambda>b v. Inr v) i b v))"
proof (cases "config_container b")
  case None
  with assms show ?thesis by (simp add: click_def)
next
  case (Some html)
  have g: "\<And>n. bar_bound (after (goto (onPaginate w p) n b v))"
  proof -
    fix n
    let ?b = "fst (render (b\<lparr>config_currentPage := parseInt n\<rparr>))"
    have "dollar ?b" using Some by (simp add: dollar_render)
    then have "bar_bound (v\<lparr>bar_of := Some ?b, currentPage := JStr n\<rparr>)"
      by (simp add: bar_bound_def)
    then show "bar_bound (after (goto (onPaginate w p) n b v))"
      by (simp add: goto_def onPaginate_def Let_def bar_bound_loadChunk)
  qed
  from assms Some show ?thesis by (simp add: click_def g split: option.splits)
qed

lemma bar_bound_destroy:
  "bar_bound v \<Longrightarrow> bar_bound (after (case bar_of v of
              None \<Rightarrow> Inr v
            | Some b \<Rightarrow>
                (case destroy b of
                   Inl e \<Rightarrow> Inl (e, v)
                 | Inr b' \<Rightarrow> Inr (emit [BarEmptied] (v\<lparr>bar_of := Some b'\<rparr>)))))"
  by (auto simp: bar_bound_def destroy_def emit_def split: option.splits)

lemma bar_bound_step: "bar_bound v \<Longrightarrow> bar_bound (after (step w a v))"
proof (cases a)
  case (LoadClick d script)
  assume b: "bar_bound v"
  have c1: "bar_bound (after (loadChunk w d JUndefined v))" using b by (rule bar_bound_loadChunk)
  show ?thesis
  proof (cases "loadChunk w d JUndefined v")
    case (Inl e)
    with c1 LoadClick show ?thesis by (cases e) simp
  next
    case (Inr v1)
    with c1 have "bar_bound v1" by simp
    then have c2: "bar_bound (after (populate w (Some script) v1))" by (rule bar_bound_populate)
    show ?thesis
    proof (cases "populate w (Some script) v1")
      case (Inl e)
      with c2 LoadClick Inr show ?thesis by (cases e) simp
    next
      case v2: (Inr v2)
      with c2 LoadClick Inr show ?thesis by (simp add: bar_bound_emit)
    qed
  qed
next
  case (FilterClick f)
  assume b: "bar_bound v"
  let ?d = "case bar_of v of
              None \<Rightarrow> Inr v
            | Some b \<Rightarrow>
                (case destroy b of
                   Inl e \<Rightarrow> Inl (e, v)
                 | Inr b' \<Rightarrow> Inr (emit [BarEmptied] (v\<lparr>bar_of := Some b'\<rparr>)))"
  have c1: "bar_bound (after ?d)" using b by (rule bar_bound_destroy)
  show ?thesis
  proof (cases ?d)
    case (Inl e)
    with c1 FilterClick show ?thesis by (cases e) simp
  next
    case (Inr v1)
    with c1 have "bar_bound v1" by simp
    then have c2: "bar_bound (after (loadChunk w (currentPid v1) (JStr f) v1))"
      by (rule bar_bound_loadChunk)
    show ?thesis
    proof (cases "loadChunk w (currentPid v1) (JStr f) v1")
      case (Inl e)
      with c2 FilterClick Inr show ?thesis by (cases e) simp
    next
      case v2: (Inr v2)
      with c2 FilterClick Inr show ?thesis by (simp add: bar_bound_emit)
    qed
  qed
next
  case (PageClick i)
  assume "bar_bound v"
  with PageClick show ?thesis by (simp add: bar_bound_click split: option.splits)
next
  case ResetClick
  assume "bar_bound v"
  with ResetClick show ?thesis
    by (simp add: reset_click_def bar_bound_loadChunk bar_bound_emit)
next
  case (ToggleClick i)
  assume "bar_bound v"
  with ToggleClick show ?thesis by (simp add: bar_bound_def)
next
  case (Respond i res)
  assume b: "bar_bound v"
  then have "bar_bound (emit [LoaderStop] (v\<lparr>pending := remove_nth i (pending v)\<rparr>))"
    by (simp add: bar_bound_def emit_def)
  then have "bar_bound (after (renderTable res
      (emit [LoaderStop] (v\<lparr>pending := remove_nth i (pending v)\<rparr>))))"
    by (simp only: bar_bound_renderTable)
  moreover from b have "bar_bound (v\<lparr>pending := remove_nth i (pending v)\<rparr>)"
    by (simp add: bar_bound_def)
  ultimately show ?thesis using Respond b by (simp add: Let_def)
next
  case (Fail i)
  assume "bar_bound v"
  with Fail show ?thesis by (simp add: bar_bound_def)
next
  case (CallLoadChunk pid f)
  assume "bar_bound v"
  with CallLoadChunk show ?thesis by (simp add: bar_bound_loadChunk)
next
  case (CallPopulate el)
  assume "bar_bound v"
  with CallPopulate show ?thesis by (simp add: bar_bound_populate)
next
  case (CallRenderTable res)
  assume "bar_bound v"
  with CallRenderTable show ?thesis by (simp add: bar_bound_renderTable)
next
  case (CallRenderBar pid cur)
  assume "bar_bound v"
  with CallRenderBar show ?thesis by (simp add: bar_bound_renderBar)
qed

lemma bar_bound_run: "bar_bound v \<Longrightarrow> bar_bound (run w acts v)"
  by (induction acts arbitrary: v) (simp_all add: bar_bound_step)

lemma bar_bound_reachable: "bar_bound (run w acts (ProcessBehaviorView hl br))"
  by (rule bar_bound_run) (simp add: bar_bound_def ProcessBehaviorView_def)

section \<open>Properties of the pagination bar\<close>

text \<open>
  Claim C1. For every configuration with \<open>totalPages \<ge> 1\<close> and
  \<open>1 \<le> currentPage \<le> totalPages\<close>, the list of links produced by \<^verbatim>\<open>render()\<close> has a link for
  page 1 and a link for \<open>totalPages\<close>, has exactly one link marked active, whose label is
  \<open>currentPage\<close>, has at most two ellipsis placeholders, and its page numbers are
  consecutive wherever two of them stand next to each other.
\<close>

theorem render_invariants:
  assumes "config_currentPage b = Num c" and "config_totalPages b = tp"
    and "1 \<le> tp" and "1 \<le> c" and "c \<le> tp"
  shows "PageNum 1 \<in> set (map label (rendered b))
       \<and> PageNum tp \<in> set (map label (rendered b))
       \<and> map label (filter active (rendered b)) = [PageNum c]
       \<and> length (filter (\<lambda>l. label l = Dots) (rendered b)) \<le> 2
       \<and> contiguous (map label (rendered b))"
proof -
  have r: "rendered b = render_links (Num c) tp" using assms(1,2) by (simp add: rendered_eq)
  have first: "PageNum 1 \<in> set (map label (render_links (Num c) tp))"
    by (simp only: labels_render) simp
  have last: "PageNum tp \<in> set (map label (render_links (Num c) tp))"
    using assms(3-5) by (simp only: labels_render) auto
  have act: "map label (filter active (render_links (Num c) tp)) = [PageNum c]"
    using assms(3-5) by (simp add: active_labels filter_PageNum_upto)
  have "length (filter (\<lambda>l. l = Dots) (map label (render_links (Num c) tp))) \<le> 2"
    by (simp only: labels_render) (simp add: filter_map comp_def)
  then have dots: "length (filter (\<lambda>l. label l = Dots) (render_links (Num c) tp)) \<le> 2"
    by (simp add: filter_map comp_def)
  have cont: "contiguous (map label (render_links (Num c) tp))"
  proof (cases "c - 10 > 2")
    case True
    then show ?thesis by (simp add: labels_render contiguous_upto)
  next
    case False
    then have "max 2 (c - 10) = 2" by simp
    with False show ?thesis by (simp add: labels_render contiguous_first)
  qed
  from first last act dots cont show ?thesis by (simp only: r) 
qed

theorem render_invariants_witness:
  "(1::int) \<le> 40 \<and> (1::int) \<le> 15 \<and> (15::int) \<le> 40
   \<and> PageNum 1 \<in> set (map label (rendered \<lparr>config_currentPage = Num 15, config_totalPages = 40,
        config_container = Some [], dollar = False\<rparr>))
   \<and> PageNum 40 \<in> set (map label (rendered \<lparr>config_currentPage = Num 15, config_totalPages = 40,
        config_container = Some [], dollar = False\<rparr>))
   \<and> map label (filter active (rendered \<lparr>config_currentPage = Num 15, config_totalPages = 40,
        config_container = Some [], dollar = False\<rparr>)) = [PageNum 15]
   \<and> length (filter (\<lambda>l. label l = Dots) (rendered \<lparr>config_currentPage = Num 15,
        config_totalPages = 40, config_container = Some [], dollar = False\<rparr>)) \<le> 2
   \<and> contiguous (map label (rendered \<lparr>config_currentPage = Num 15, config_totalPages = 40,
        config_container = Some [], dollar = False\<rparr>))"
  using render_invariants [of "\<lparr>config_currentPage = Num 15, config_totalPages = 40,
        config_container = Some [], dollar = False\<rparr>" 15 40]
  by simp

text \<open>
  Claim C2, as the code has it. The test in \<^verbatim>\<open>render()\<close> is \<^verbatim>\<open>currentPage-10 > 2\<close>: for
  every configuration with \<open>currentPage \<ge> 1\<close> the link after the first link is an ellipsis
  exactly when \<open>currentPage - 10 > 2\<close>, that is when more than 11 pages precede the current
  page.
\<close>

theorem leading_ellipsis_iff:
  assumes "config_currentPage b = Num c" and "1 \<le> c"
  shows "leading_ellipsis (map label (rendered b)) = (c - 10 > 2)"
proof -
  let ?tp = "config_totalPages b"
  have r: "rendered b = render_links (Num c) ?tp" using assms(1) by (simp add: rendered_eq)
  show ?thesis
  proof (cases "c - 10 > 2")
    case True
    then show ?thesis by (simp add: r labels_render)
  next
    case False
    then have m: "max 2 (c - 10) = 2" by simp
    show ?thesis
    proof (cases "2 \<le> min ?tp (c + 10)")
      case True
      then show ?thesis using False by (simp add: r labels_render m upto_2_split)
    next
      case nowin: False
      then have "min ?tp (c + 10) < 2" by linarith
      then have e: "[2..min ?tp (c + 10)] = []" by (simp only: upto_empty)
      from nowin assms(2) have "\<not> c + 10 < ?tp" by linarith
      with False show ?thesis unfolding r labels_render m e by simp
    qed
  qed
qed

theorem leading_ellipsis_iff_witness:
  "(1::int) \<le> 13 \<and> leading_ellipsis (map label (rendered \<lparr>config_currentPage = Num 13,
      config_totalPages = 40, config_container = Some [], dollar = False\<rparr>)) = ((13::int) - 10 > 2)"
  using leading_ellipsis_iff [of "\<lparr>config_currentPage = Num 13,
      config_totalPages = 40, config_container = Some [], dollar = False\<rparr>" 13]
  by simp

text \<open>
  Claim C2 as stated (an ellipsis follows the first link exactly when
  \<open>currentPage - 1 > 10\<close>) fails for page 12 of 40, where 11 pages precede the current page
  and page 2 follows page 1, and for page \<open>-20\<close> of 5, where the window is empty and the
  trailing ellipsis follows page 1.
\<close>

theorem leading_ellipsis_counterexample:
  "\<not> (leading_ellipsis (map label (rendered \<lparr>config_currentPage = Num 12, config_totalPages = 40,
         config_container = Some [], dollar = False\<rparr>)) \<longleftrightarrow> (12::int) - 1 > 10)
   \<and> \<not> (leading_ellipsis (map label (rendered \<lparr>config_currentPage = Num (- 20),
         config_totalPages = 5, config_container = Some [], dollar = False\<rparr>))
        \<longleftrightarrow> (- 20::int) - 1 > 10)"
  by (simp add: rendered_eq labels_render upto_2_split)

text \<open>
  Claim C3. For every configuration, \<^verbatim>\<open>render()\<close> emits, after the first page (and the
  leading ellipsis, if any), the page links from \<open>max(2, currentPage - 10)\<close> to
  \<open>min(totalPages, currentPage + 10)\<close> without a gap, and then a trailing ellipsis and a
  link for the last page exactly when more than 10 pages follow the current page. With 40
  pages and current page 1 the list is 1 to 11, an ellipsis, 40; with 5 pages and
  current page 3 it is 1 to 5 with no ellipsis.
\<close>

theorem render_window:
  "map label (rendered \<lparr>config_currentPage = Num c, config_totalPages = tp,
       config_container = cont, dollar = d\<rparr>) =
     PageNum 1 # (if c - 10 > 2 then [Dots] else []) @
     map PageNum [max 2 (c - 10)..min tp (c + 10)] @
     (if tp - c > 10 then [Dots, PageNum tp] else [])
   \<and> map label (rendered \<lparr>config_currentPage = Num 1, config_totalPages = 40,
         config_container = cont, dollar = d\<rparr>) =
       [PageNum 1, PageNum 2, PageNum 3, PageNum 4, PageNum 5, PageNum 6, PageNum 7, PageNum 8,
        PageNum 9, PageNum 10, PageNum 11, Dots, PageNum 40]
   \<and> map label (rendered \<lparr>config_currentPage = Num 3, config_totalPages = 5,
         config_container = cont, dollar = d\<rparr>) =
       [PageNum 1, PageNum 2, PageNum 3, PageNum 4, PageNum 5]"
proof -
  have "(c + 10 < tp) = (tp - c > 10)" by linarith
  then have a: "map label (render_links (Num c) tp) =
     PageNum 1 # (if c - 10 > 2 then [Dots] else []) @
     map PageNum [max 2 (c - 10)..min tp (c + 10)] @
     (if tp - c > 10 then [Dots, PageNum tp] else [])"
    by (simp only: labels_render)
  have b: "map label (render_links (Num 1) 40) =
       [PageNum 1, PageNum 2, PageNum 3, PageNum 4, PageNum 5, PageNum 6, PageNum 7, PageNum 8,
        PageNum 9, PageNum 10, PageNum 11, Dots, PageNum 40]"
    by (simp add: labels_render upto_rec1)
  have c: "map label (render_links (Num 3) 5) =
       [PageNum 1, PageNum 2, PageNum 3, PageNum 4, PageNum 5]"
    by (simp add: labels_render upto_rec1)
  show ?thesis using a b c by (simp add: rendered_eq)
qed

theorem render_window_witness:
  "map label (rendered \<lparr>config_currentPage = Num 20, config_totalPages = 25,
       config_container = None, dollar = False\<rparr>) =
     [PageNum 1, Dots, PageNum 10, PageNum 11, PageNum 12, PageNum 13, PageNum 14, PageNum 15,
      PageNum 16, PageNum 17, PageNum 18, PageNum 19, PageNum 20, PageNum 21, PageNum 22,
      PageNum 23, PageNum 24, PageNum 25]"
  using render_window [of 20 25 None False] by (simp add: upto_rec1)

text \<open>
  Claim C7. In a rendered bar exactly the links with a numeric label have an \<^verbatim>\<open>href\<close>, so
  the ellipsis placeholders carry no click handler. A click on a link with label \<open>n\<close>
  stores \<open>n\<close>, read back by \<^verbatim>\<open>parseInt\<close> from the \<^verbatim>\<open>href\<close>, as the current page, renders
  the bar again and then calls the configured callback; the argument of the callback is
  the page number as the \<^verbatim>\<open>href\<close> spells it, its decimal string.
\<close>

theorem page_links_clickable:
  assumes "config_container b0 = Some old"
  shows "(\<forall>l \<in> set (rendered b0). (href l \<noteq> None) = (\<exists>n. label l = PageNum n))
       \<and> (\<forall>i < length (rendered b0). click cb idle i (fst (render b0)) w =
            (case label (rendered b0 ! i) of
               PageNum n \<Rightarrow> cb (show_int n) (fst (render (b0\<lparr>config_currentPage := Num n\<rparr>))) w
             | Dots \<Rightarrow> idle (fst (render b0)) w))
       \<and> (\<forall>n. config_currentPage (fst (render (b0\<lparr>config_currentPage := Num n\<rparr>))) = Num n
              \<and> config_container (fst (render (b0\<lparr>config_currentPage := Num n\<rparr>))) =
                  Some (render_links (Num n) (config_totalPages b0)))"
proof (intro conjI allI impI ballI)
  fix l assume "l \<in> set (rendered b0)"
  then have "l \<in> set (render_links (config_currentPage b0) (config_totalPages b0))"
    by (simp add: rendered_eq)
  then have "href l = (case label l of PageNum n \<Rightarrow> Some (''page:'' @ show_int n) | Dots \<Rightarrow> None)"
    by (rule href_rendered)
  then show "(href l \<noteq> None) = (\<exists>n. label l = PageNum n)"
    by (cases "label l") simp_all
next
  fix n
  show "config_currentPage (fst (render (b0\<lparr>config_currentPage := Num n\<rparr>))) = Num n"
    using assms by (simp add: render_container)
  show "config_container (fst (render (b0\<lparr>config_currentPage := Num n\<rparr>))) =
          Some (render_links (Num n) (config_totalPages b0))"
    using assms by (simp add: render_container)
next
  fix i assume i: "i < length (rendered b0)"
  let ?html = "render_links (config_currentPage b0) (config_totalPages b0)"
  let ?b = "b0\<lparr>config_container := Some ?html, dollar := True\<rparr>"
  have b: "fst (render b0) = ?b" using assms by (rule render_container)
  have r: "rendered b0 = ?html" by (rule rendered_eq)
  from i r have "?html ! i \<in> set ?html" by simp
  then have h: "href (?html ! i) =
      (case label (?html ! i) of PageNum n \<Rightarrow> Some (''page:'' @ show_int n) | Dots \<Rightarrow> None)"
    by (rule href_rendered)
  show "click cb idle i (fst (render b0)) w =
            (case label (rendered b0 ! i) of
               PageNum n \<Rightarrow> cb (show_int n) (fst (render (b0\<lparr>config_currentPage := Num n\<rparr>))) w
             | Dots \<Rightarrow> idle (fst (render b0)) w)"
  proof (cases "label (?html ! i)")
    case Dots
    with h i r show ?thesis by (simp add: b click_def)
  next
    case (PageNum n)
    with h have "href (?html ! i) = Some (''page:'' @ show_int n)" by simp
    then have "click cb idle i ?b w = goto cb (show_int n) ?b w"
      using i r by (simp add: click_def)
    also have "\<dots> = cb (show_int n) (fst (render (?b\<lparr>config_currentPage := Num n\<rparr>))) w"
      by (simp add: goto_def Let_def parseInt_show_int)
    also have "fst (render (?b\<lparr>config_currentPage := Num n\<rparr>)) =
               fst (render (b0\<lparr>config_currentPage := Num n\<rparr>))"
      using assms by (simp add: render_container)
    finally show ?thesis using PageNum r by (simp add: b)
  qed
qed

theorem page_links_clickable_witness:
  "config_container \<lparr>config_currentPage = Num 1, config_totalPages = 40,
       config_container = Some [], dollar = False\<rparr> = Some []
   \<and> click (\<lambda>n b w. (n, config_currentPage b)) (\<lambda>b w. ([], NaN)) 2
        (fst (render \<lparr>config_currentPage = Num 1, config_totalPages = 40,
           config_container = Some [], dollar = False\<rparr>)) () = (''3'', Num 3)
   \<and> href (rendered \<lparr>config_currentPage = Num 1, config_totalPages = 40,
           config_container = Some [], dollar = False\<rparr> ! 11) = None"
proof -
  let ?b0 = "\<lparr>config_currentPage = Num 1, config_totalPages = 40,
       config_container = Some [], dollar = False\<rparr>"
  let ?cb = "\<lambda>n b (w::unit). (n, config_currentPage b)"
  let ?idle = "\<lambda>(b::bar) (w::unit). ([]::string, NaN)"
  have h: "config_container ?b0 = Some []" by simp
  have len: "2 < length (rendered ?b0)" "11 < length (rendered ?b0)" by code_simp+
  have lab: "label (rendered ?b0 ! 2) = PageNum 3" "label (rendered ?b0 ! 11) = Dots"
    by code_simp+
  have s: "show_int 3 = ''3''" by code_simp
  note t = page_links_clickable [OF h, of ?cb ?idle "()"]
  from t len(1) have "click ?cb ?idle 2 (fst (render ?b0)) () =
      (case label (rendered ?b0 ! 2) of
         PageNum n \<Rightarrow> ?cb (show_int n) (fst (render (?b0\<lparr>config_currentPage := Num n\<rparr>))) ()
       | Dots \<Rightarrow> ?idle (fst (render ?b0)) ())"
    by blast
  moreover from t have "config_currentPage (fst (render (?b0\<lparr>config_currentPage := Num 3\<rparr>))) = Num 3"
    by blast
  ultimately have c: "click ?cb ?idle 2 (fst (render ?b0)) () = (''3'', Num 3)"
    by (simp add: lab s)
  from len(2) have "rendered ?b0 ! 11 \<in> set (rendered ?b0)" by (rule nth_mem)
  with t have "(href (rendered ?b0 ! 11) \<noteq> None) = (\<exists>n. label (rendered ?b0 ! 11) = PageNum n)"
    by blast
  then have "href (rendered ?b0 ! 11) = None" by (simp add: lab)
  with h c show ?thesis by simp
qed

section \<open>Properties of the tree\<close>

text \<open>
  Claim C8, as the code has it. Applying \<^verbatim>\<open>toggleBranch\<close> twice to the same toggle control
  always returns the \<^verbatim>\<open>open\<close> class of every nested list to its original state. The
  \<^verbatim>\<open>is-open\<close> class of the control is not flipped but set from the lists, so it returns to
  its original state exactly when it agreed at the start with whether some nested list
  was open; from the first call on it agrees, and three calls equal one.
\<close>

theorem toggleBranch_twice:
  fixes b :: branch
  shows "target_lists (toggleBranch (toggleBranch b)) = target_lists b
       \<and> (toggle (toggleBranch (toggleBranch b)) = toggle b)
           = ((''is-open'' \<in> toggle b) = hasClass ''open'' (target_lists b))
       \<and> (toggleBranch (toggleBranch b) = b)
           = ((''is-open'' \<in> toggle b) = hasClass ''open'' (target_lists b))
       \<and> toggleBranch (toggleBranch (toggleBranch b)) = toggleBranch b"
proof -
  have l: "target_lists (toggleBranch (toggleBranch b)) = target_lists b" by (rule lists_toggleBranch_twice)
  have t: "(toggle (toggleBranch (toggleBranch b)) = toggle b)
           = ((''is-open'' \<in> toggle b) = hasClass ''open'' (target_lists b))"
    by (simp only: toggle_toggleBranch_twice setClass_same)
  have e: "(toggleBranch (toggleBranch b) = b) =
           (target_lists (toggleBranch (toggleBranch b)) = target_lists b \<and> toggle (toggleBranch (toggleBranch b)) = toggle b)"
    by (cases b, cases "toggleBranch (toggleBranch b)") auto
  have "target_lists (toggleBranch (toggleBranch (toggleBranch b))) = target_lists (toggleBranch b)"
    by (rule lists_toggleBranch_twice)
  moreover have "toggle (toggleBranch (toggleBranch (toggleBranch b))) = toggle (toggleBranch b)"
    by (simp add: toggle_toggleBranch_twice [of "toggleBranch b"] lists_toggleBranch
        toggle_toggleBranch setClass_twice comp_def toggleClass_twice)
  ultimately have three: "toggleBranch (toggleBranch (toggleBranch b)) = toggleBranch b"
    by (cases "toggleBranch (toggleBranch (toggleBranch b))", cases "toggleBranch b") auto
  from l t e three show ?thesis by simp
qed

theorem toggleBranch_twice_witness:
  "toggleBranch (toggleBranch \<lparr>target_lists = [{''open''}, {}], toggle = {''is-open''}\<rparr>)
     = \<lparr>target_lists = [{''open''}, {}], toggle = {''is-open''}\<rparr>"
  using toggleBranch_twice [of "\<lparr>target_lists = [{''open''}, {}], toggle = {''is-open''}\<rparr>"]
  by (simp add: hasClass_def)

text \<open>
  Claim C8 as stated (both classes return to their original state for every branch) fails
  for a branch whose nested list is open while the control has no \<^verbatim>\<open>is-open\<close> class, and
  for a control with the class \<^verbatim>\<open>is-open\<close> whose list item has no nested list.
\<close>

theorem toggleBranch_twice_counterexample:
  "''is-open'' \<notin> toggle \<lparr>target_lists = [{''open''}], toggle = {}\<rparr>
   \<and> ''is-open'' \<in> toggle (toggleBranch (toggleBranch \<lparr>target_lists = [{''open''}], toggle = {}\<rparr>))
   \<and> ''is-open'' \<in> toggle \<lparr>target_lists = [], toggle = {''is-open''}\<rparr>
   \<and> ''is-open'' \<notin> toggle (toggleBranch (toggleBranch \<lparr>target_lists = [], toggle = {''is-open''}\<rparr>))"
  by (simp add: toggle_toggleBranch_twice hasClass_def setClass_def)

section \<open>Properties of the view\<close>

text \<open>
  Claim C4, as the code has it. On a view whose loader was created, \<^verbatim>\<open>loadChunk(pid)\<close>
  with no filter, or with a falsy one such as the empty string, requests
  \<^verbatim>\<open>/analysis/chunk/{task_id}/{pid}/{currentPage}\<close>, and \<^verbatim>\<open>loadChunk(pid, f)\<close> with a truthy
  filter \<open>f\<close> requests \<^verbatim>\<open>/analysis/filtered/{task_id}/{pid}/{f}\<close>; in both cases the loader
  is started first and \<^verbatim>\<open>currentPid\<close> is \<open>pid\<close> when the request is issued.
\<close>

theorem loadChunk_request:
  assumes "loader v"
  shows "(\<not> truthy f \<longrightarrow>
            loadChunk w pid f v =
              Inr (v\<lparr>currentPid := pid,
                     pending := pending v @
                       [''/analysis/chunk/'' @ to_string (task_id w) @ ''/'' @ to_string pid @ ''/''
                          @ to_string (currentPage v)],
                     events := events v @
                       [LoaderStart,
                        Get (''/analysis/chunk/'' @ to_string (task_id w) @ ''/'' @ to_string pid @ ''/''
                          @ to_string (currentPage v))]\<rparr>))
       \<and> (truthy f \<longrightarrow>
            loadChunk w pid f v =
              Inr (v\<lparr>currentPid := pid,
                     pending := pending v @
                       [''/analysis/filtered/'' @ to_string (task_id w) @ ''/'' @ to_string pid @ ''/''
                          @ to_string f],
                     events := events v @
                       [LoaderStart,
                        Get (''/analysis/filtered/'' @ to_string (task_id w) @ ''/'' @ to_string pid
                          @ ''/'' @ to_string f)]\<rparr>))"
  using assms by (simp add: loadChunk_loader chunk_url_def filtered_url_def)

theorem loadChunk_request_witness:
  "loader (ProcessBehaviorView True [])
   \<and> loadChunk \<lparr>task_id = JNum 7, PROCESS_TREE_PAGINATION_INFO = (\<lambda>k. None),
                 JSON_parse = (\<lambda>t. None)\<rparr> (JNum 1234) JUndefined (ProcessBehaviorView True [])
     = Inr ((ProcessBehaviorView True [])\<lparr>currentPid := JNum 1234,
          pending := [''/analysis/chunk/7/1234/1''],
          events := [LoaderStop, LoaderStart, Get ''/analysis/chunk/7/1234/1'']\<rparr>)
   \<and> loadChunk \<lparr>task_id = JNum 7, PROCESS_TREE_PAGINATION_INFO = (\<lambda>k. None),
                 JSON_parse = (\<lambda>t. None)\<rparr> (JNum 1234) (JStr ''network'') (ProcessBehaviorView True [])
     = Inr ((ProcessBehaviorView True [])\<lparr>currentPid := JNum 1234,
          pending := [''/analysis/filtered/7/1234/network''],
          events := [LoaderStop, LoaderStart, Get ''/analysis/filtered/7/1234/network'']\<rparr>)"
proof -
  let ?w = "\<lparr>task_id = JNum 7, PROCESS_TREE_PAGINATION_INFO = (\<lambda>k. None),
                 JSON_parse = (\<lambda>t. None)\<rparr>"
  let ?v = "ProcessBehaviorView True []"
  have l: "loader ?v" by (simp add: ProcessBehaviorView_def)
  have s: "show_int 7 = ''7''" "show_int 1234 = ''1234''" "show_int 1 = ''1''" by code_simp+
  have f: "pending ?v = []" "events ?v = [LoaderStop]" "currentPage ?v = JNum 1"
    by (simp_all add: ProcessBehaviorView_def)
  from loadChunk_request [OF l, of JUndefined ?w "JNum 1234"]
       loadChunk_request [OF l, of "JStr ''network''" ?w "JNum 1234"] l
  show ?thesis by (simp add: s f)
qed

text \<open>
  Claim C4 as stated (for every call) fails on a view built without a loading element,
  where the call throws before any request, and for the empty string as filter, which
  \<^verbatim>\<open>!filter\<close> treats as no filter, so that the unfiltered URL is requested.
\<close>

theorem loadChunk_request_counterexample:
  "loadChunk \<lparr>task_id = JNum 7, PROCESS_TREE_PAGINATION_INFO = (\<lambda>k. None),
               JSON_parse = (\<lambda>t. None)\<rparr> (JNum 1234) JUndefined (ProcessBehaviorView False [])
     = Inl (TypeError, (ProcessBehaviorView False [])\<lparr>currentPid := JNum 1234\<rparr>)
   \<and> events (ProcessBehaviorView False []) = []
   \<and> loadChunk \<lparr>task_id = JNum 7, PROCESS_TREE_PAGINATION_INFO = (\<lambda>k. None),
                 JSON_parse = (\<lambda>t. None)\<rparr> (JNum 1234) (JStr []) (ProcessBehaviorView True [])
     = Inr ((ProcessBehaviorView True [])\<lparr>currentPid := JNum 1234,
          pending := [''/analysis/chunk/7/1234/1''],
          events := [LoaderStop, LoaderStart, Get ''/analysis/chunk/7/1234/1'']\<rparr>)"
proof -
  let ?w = "\<lparr>task_id = JNum 7, PROCESS_TREE_PAGINATION_INFO = (\<lambda>k. None),
                 JSON_parse = (\<lambda>t. None)\<rparr>"
  have s: "show_int 7 = ''7''" "show_int 1234 = ''1234''" "show_int 1 = ''1''" by code_simp+
  have a: "\<not> loader (ProcessBehaviorView False [])" "loader (ProcessBehaviorView True [])"
    by (simp_all add: ProcessBehaviorView_def)
  have f: "pending (ProcessBehaviorView True []) = []"
    "events (ProcessBehaviorView True []) = [LoaderStop]"
    "currentPage (ProcessBehaviorView True []) = JNum 1"
    "events (ProcessBehaviorView False []) = []"
    by (simp_all add: ProcessBehaviorView_def)
  show ?thesis
    by (simp add: loadChunk_no_loader [OF a(1)] loadChunk_loader [OF a(2)] f chunk_url_def s)
qed

text \<open>
  Claim C5, as the code has it. \<^verbatim>\<open>renderTable\<close> works on the first node of the parsed
  response. When that node is a table whose \<^verbatim>\<open>tbody\<close> has no child, exactly one row is
  appended to it, the "No results" row spanning the number of header cells, with its
  reset button; when it is a table with at least one row nothing is appended and there
  is no such button. A click on the button, when \<^verbatim>\<open>currentPid\<close> is truthy, clears the
  active class of the tags and calls \<^verbatim>\<open>loadChunk(currentPid)\<close> with no filter, which with
  a loader requests the unfiltered URL.
\<close>

theorem renderTable_no_results:
  "(body t = [] \<longrightarrow>
      (\<exists>v'. renderTable (Some (Element t # ns)) v = Inr v'
         \<and> behavior_table v' =
             Some (Element (t\<lparr>table_classes :=
                      insert ''cuckoo-table'' (table_classes t - {''table'', ''table-bordered''})\<rparr>),
                   [NoResultRow (columns t)])
         \<and> reset_button v'))
   \<and> (body t \<noteq> [] \<longrightarrow>
      (\<exists>v'. renderTable (Some (Element t # ns)) v = Inr v'
         \<and> behavior_table v' =
             Some (Element (t\<lparr>table_classes :=
                      insert ''cuckoo-table'' (table_classes t - {''table'', ''table-bordered''})\<rparr>),
                   [])
         \<and> \<not> reset_button v'))
   \<and> (reset_button u \<and> truthy (currentPid u) \<longrightarrow>
        step w ResetClick u = loadChunk w (currentPid u) JUndefined (emit [TagsCleared] u))
   \<and> (reset_button u \<and> truthy (currentPid u) \<and> loader u \<longrightarrow>
        step w ResetClick u =
          Inr (u\<lparr>pending := pending u @ [chunk_url w (currentPid u) (currentPage u)],
                 events := events u @
                   [TagsCleared, LoaderStart, Get (chunk_url w (currentPid u) (currentPage u))]\<rparr>))"
proof (intro conjI impI)
  assume "body t = []"
  then show "\<exists>v'. renderTable (Some (Element t # ns)) v = Inr v'
         \<and> behavior_table v' =
             Some (Element (t\<lparr>table_classes :=
                      insert ''cuckoo-table'' (table_classes t - {''table'', ''table-bordered''})\<rparr>),
                   [NoResultRow (columns t)])
         \<and> reset_button v'"
    by (simp add: renderTable_element reset_button_def)
next
  assume "body t \<noteq> []"
  then show "\<exists>v'. renderTable (Some (Element t # ns)) v = Inr v'
         \<and> behavior_table v' =
             Some (Element (t\<lparr>table_classes :=
                      insert ''cuckoo-table'' (table_classes t - {''table'', ''table-bordered''})\<rparr>),
                   [])
         \<and> \<not> reset_button v'"
    by (simp add: renderTable_element reset_button_def)
next
  assume "reset_button u \<and> truthy (currentPid u)"
  then show "step w ResetClick u = loadChunk w (currentPid u) JUndefined (emit [TagsCleared] u)"
    by (simp add: reset_click_def)
next
  assume a: "reset_button u \<and> truthy (currentPid u) \<and> loader u"
  then have "loader (emit [TagsCleared] u)" by (simp add: emit_def)
  from loadChunk_loader [OF this, of w "currentPid u" JUndefined] a
  show "step w ResetClick u =
          Inr (u\<lparr>pending := pending u @ [chunk_url w (currentPid u) (currentPage u)],
                 events := events u @
                   [TagsCleared, LoaderStart, Get (chunk_url w (currentPid u) (currentPage u))]\<rparr>)"
    by (simp add: reset_click_def emit_def)
qed

theorem renderTable_no_results_witness:
  "body \<lparr>table_classes = {''table''}, columns = 5, body = []\<rparr> = []
   \<and> behavior_table (after (renderTable
         (Some [Element \<lparr>table_classes = {''table''}, columns = 5, body = []\<rparr>])
         (ProcessBehaviorView True []))) =
       Some (Element \<lparr>table_classes = {''cuckoo-table''}, columns = 5, body = []\<rparr>,
             [NoResultRow 5])
   \<and> behavior_table (after (renderTable
         (Some [Element \<lparr>table_classes = {''table''}, columns = 5, body = [DataRow ''a'']\<rparr>])
         (ProcessBehaviorView True []))) =
       Some (Element \<lparr>table_classes = {''cuckoo-table''}, columns = 5, body = [DataRow ''a'']\<rparr>,
             [])
   \<and> events (after (step \<lparr>task_id = JNum 7, PROCESS_TREE_PAGINATION_INFO = (\<lambda>k. None),
                 JSON_parse = (\<lambda>t. None)\<rparr> ResetClick
         ((after (renderTable
             (Some [Element \<lparr>table_classes = {''table''}, columns = 5, body = []\<rparr>])
             (ProcessBehaviorView True [])))\<lparr>currentPid := JNum 8\<rparr>))) =
       [LoaderStop, TableReplaced, LoadedShown, UnloadedHidden, TagsCleared, LoaderStart,
        Get ''/analysis/chunk/7/8/1'']"
proof -
  let ?w = "\<lparr>task_id = JNum 7, PROCESS_TREE_PAGINATION_INFO = (\<lambda>k. None),
                 JSON_parse = (\<lambda>t. None)\<rparr>"
  let ?t = "\<lparr>table_classes = {''table''}, columns = 5, body = []\<rparr>"
  let ?t2 = "\<lparr>table_classes = {''table''}, columns = 5, body = [DataRow ''a'']\<rparr>"
  let ?v = "ProcessBehaviorView True []"
  let ?u = "(after (renderTable (Some [Element ?t]) ?v))\<lparr>currentPid := JNum 8\<rparr>"
  have c: "{''table''} - {''table'', ''table-bordered''} = ({}::string set)" by auto
  note th = renderTable_no_results [of ?t "[]" ?v ?u ?w]
  note th2 = renderTable_no_results [of ?t2 "[]" ?v ?u ?w]
  from th obtain v' where v': "renderTable (Some [Element ?t]) ?v = Inr v'"
    "behavior_table v' = Some (Element \<lparr>table_classes = {''cuckoo-table''}, columns = 5, body = []\<rparr>,
        [NoResultRow 5])" "reset_button v'"
    by (auto simp: c)
  from th2 obtain v2 where v2: "renderTable (Some [Element ?t2]) ?v = Inr v2"
    "behavior_table v2 =
       Some (Element \<lparr>table_classes = {''cuckoo-table''}, columns = 5, body = [DataRow ''a'']\<rparr>, [])"
    by (auto simp: c)
  have b: "reset_button ?u" using v'(1,3) by (simp add: reset_button_def)
  have l: "loader ?u" "truthy (currentPid ?u)"
    by (simp_all add: renderTable_element ProcessBehaviorView_def)
  have e: "events ?u = [LoaderStop, TableReplaced, LoadedShown, UnloadedHidden]"
    "currentPage ?u = JNum 1" "currentPid ?u = JNum 8"
    by (simp_all add: renderTable_element ProcessBehaviorView_def)
  have s: "show_int 7 = ''7''" "show_int 8 = ''8''" "show_int 1 = ''1''" by code_simp+
  from th b l have "step ?w ResetClick ?u =
          Inr (?u\<lparr>pending := pending ?u @ [chunk_url ?w (currentPid ?u) (currentPage ?u)],
                 events := events ?u @
                   [TagsCleared, LoaderStart, Get (chunk_url ?w (currentPid ?u) (currentPage ?u))]\<rparr>)"
    by blast
  then have r: "events (after (step ?w ResetClick ?u)) =
       [LoaderStop, TableReplaced, LoadedShown, UnloadedHidden, TagsCleared, LoaderStart,
        Get ''/analysis/chunk/7/8/1'']"
    by (simp add: e chunk_url_def s)
  from v' v2 r show ?thesis by simp
qed

text \<open>
  Claim C5 as stated (for every table fragment whose \<^verbatim>\<open>tbody\<close> has no child) fails for a
  response in which white space stands before the table: the first node is then the
  text, it replaces the content of \<^verbatim>\<open>#behavior-table\<close>, and neither a row nor a button
  is added. It fails as well for a response without any node, which leaves the content
  as it is.
\<close>

theorem renderTable_no_results_counterexample:
  "body \<lparr>table_classes = {''table''}, columns = 5, body = []\<rparr> = []
   \<and> renderTable
        (Some [TextNode [CHR 0x0A], Element \<lparr>table_classes = {''table''}, columns = 5, body = []\<rparr>])
        (ProcessBehaviorView True []) =
      Inr ((ProcessBehaviorView True [])
             \<lparr>behavior_table := Some (TextNode [CHR 0x0A], []),
              events := [LoaderStop, TableReplaced, LoadedShown, UnloadedHidden]\<rparr>)
   \<and> \<not> reset_button (after (renderTable
        (Some [TextNode [CHR 0x0A], Element \<lparr>table_classes = {''table''}, columns = 5, body = []\<rparr>])
        (ProcessBehaviorView True [])))
   \<and> \<not> reset_button (after (renderTable (Some []) (ProcessBehaviorView True [])))"
  by (simp add: renderTable_text renderTable_empty reset_button_def ProcessBehaviorView_def)

text \<open>
  Claim C6. In \<^verbatim>\<open>loadChunk\<close> the loading indicator is started before the request is
  issued. No handler and no method other than the success callback of a request stops
  the loader: every other action only appends events that are not a stop. So once the
  indicator is on it stays on through any sequence of actions without a response, and
  it goes off when a response arrives.
\<close>

theorem loader_stopped_only_by_response:
  "(loader v \<longrightarrow>
      (\<exists>url v'. loadChunk w pid f v = Inr v' \<and> events v' = events v @ [LoaderStart, Get url]
          \<and> loading v'))
   \<and> (\<not> is_response a \<longrightarrow>
      (\<exists>es. events (after (step w a u)) = events u @ es \<and> LoaderStop \<notin> set es))
   \<and> (loading u \<and> list_all (\<lambda>a. \<not> is_response a) acts \<longrightarrow> loading (run w acts u))
   \<and> (loader u \<and> i < length (pending u) \<longrightarrow> \<not> loading (after (step w (Respond i res) u)))"
proof (intro conjI impI)
  assume l: "loader v"
  let ?url = "if truthy f then filtered_url w pid f else chunk_url w pid (currentPage v)"
  let ?v' = "(emit [LoaderStart, Get ?url] (v\<lparr>currentPid := pid\<rparr>))
               \<lparr>pending := pending v @ [?url]\<rparr>"
  have "loadChunk w pid f v = Inr ?v'"
    using l by (simp add: loadChunk_def Let_def url_nonempty)
  moreover have "events ?v' = events v @ [LoaderStart, Get ?url]" by (simp add: emit_def)
  moreover have "loading ?v'" by (simp add: loading_def emit_def loading_from_append)
  ultimately show "\<exists>url v'. loadChunk w pid f v = Inr v' \<and>
      events v' = events v @ [LoaderStart, Get url] \<and> loading v'"
    by blast
next
  assume "\<not> is_response a"
  then have "calm u (after (step w a u))" by (rule calm_step)
  from calmD(2) [OF this]
  show "\<exists>es. events (after (step w a u)) = events u @ es \<and> LoaderStop \<notin> set es" by blast
next
  assume "loading u \<and> list_all (\<lambda>a. \<not> is_response a) acts"
  then show "loading (run w acts u)" using calm_run calm_loading by blast
next
  assume a: "loader u \<and> i < length (pending u)"
  let ?u1 = "emit [LoaderStop] (u\<lparr>pending := remove_nth i (pending u)\<rparr>)"
  from a have s: "after (step w (Respond i res) u) = after (renderTable res ?u1)"
    by (simp add: Let_def)
  from renderTable_cases [of res ?u1] obtain bt es where
    r: "after (renderTable res ?u1) = ?u1\<lparr>behavior_table := bt, events := events ?u1 @ es\<rparr>"
    and e: "set es \<subseteq> {TableReplaced, LoadedShown, UnloadedHidden}"
    by blast
  have q: "loading_from False es = False" if "set es \<subseteq> {TableReplaced, LoadedShown, UnloadedHidden}"
    for es
    using that by (induction False es rule: loading_from.induct) auto
  show "\<not> loading (after (step w (Respond i res) u))"
    unfolding s r by (simp add: loading_def emit_def loading_from_append q [OF e])
qed

theorem loader_stopped_only_by_response_witness:
  "loader (ProcessBehaviorView True [])
   \<and> list_all (\<lambda>a. \<not> is_response a) [Fail 0, ResetClick, FilterClick ''file'']
   \<and> loading (run \<lparr>task_id = JNum 7, PROCESS_TREE_PAGINATION_INFO = (\<lambda>k. None),
                    JSON_parse = (\<lambda>t. None)\<rparr> [Fail 0, ResetClick, FilterClick ''file'']
         (after (loadChunk \<lparr>task_id = JNum 7, PROCESS_TREE_PAGINATION_INFO = (\<lambda>k. None),
                    JSON_parse = (\<lambda>t. None)\<rparr> (JNum 8) JUndefined (ProcessBehaviorView True []))))"
proof -
  let ?w = "\<lparr>task_id = JNum 7, PROCESS_TREE_PAGINATION_INFO = (\<lambda>k. None),
              JSON_parse = (\<lambda>t. None)\<rparr>"
  let ?v = "ProcessBehaviorView True []"
  let ?acts = "[Fail 0, ResetClick, FilterClick ''file'']"
  have l: "loader ?v" by (simp add: ProcessBehaviorView_def)
  have n: "list_all (\<lambda>a. \<not> is_response a) ?acts" by simp
  from loader_stopped_only_by_response [where v = ?v and w = ?w and pid = "JNum 8" and f = JUndefined] l
  obtain v' where v': "loadChunk ?w (JNum 8) JUndefined ?v = Inr v'" "loading v'" by blast
  from loader_stopped_only_by_response [where u = v' and acts = ?acts and w = ?w] v'(2) n
  have "loading (run ?w ?acts v')" by blast
  with v'(1) l n show ?thesis by simp
qed

text \<open>
  Claim C10. The constructor leaves the loader \<^verbatim>\<open>null\<close> when the root has no loading
  element, and no action ever creates one. On such a view every call of \<^verbatim>\<open>loadChunk\<close>,
  in whatever state the view has reached, throws a \<^verbatim>\<open>TypeError\<close> after setting
  \<^verbatim>\<open>currentPid\<close> and before issuing the request; no request is ever issued or pending.
\<close>

theorem loadChunk_needs_loader:
  "\<not> loader (ProcessBehaviorView False br)
   \<and> \<not> loader (run w acts (ProcessBehaviorView False br))
   \<and> loadChunk w pid f (run w acts (ProcessBehaviorView False br)) =
       Inl (TypeError, (run w acts (ProcessBehaviorView False br))\<lparr>currentPid := pid\<rparr>)
   \<and> list_all (\<lambda>e. \<not> is_request e) (events (run w acts (ProcessBehaviorView False br)))
   \<and> pending (run w acts (ProcessBehaviorView False br)) = []"
proof -
  let ?v0 = "ProcessBehaviorView False br"
  have i: "\<not> loader ?v0" "pending ?v0 = []" "list_all (\<lambda>e. \<not> is_request e) (events ?v0)"
    by (simp_all add: ProcessBehaviorView_def)
  from noloader_run [OF i, of w acts]
  have r: "\<not> loader (run w acts ?v0)" "pending (run w acts ?v0) = []"
    "list_all (\<lambda>e. \<not> is_request e) (events (run w acts ?v0))"
    by simp_all
  from r(1) have "loadChunk w pid f (run w acts ?v0) =
      Inl (TypeError, (run w acts ?v0)\<lparr>currentPid := pid\<rparr>)"
    by (simp add: loadChunk_def Let_def url_nonempty)
  with i(1) r show ?thesis by simp
qed

theorem loadChunk_needs_loader_witness:
  "loadChunk \<lparr>task_id = JNum 7, PROCESS_TREE_PAGINATION_INFO = (\<lambda>k. None),
               JSON_parse = (\<lambda>t. None)\<rparr> (JNum 9) JUndefined
     (run \<lparr>task_id = JNum 7, PROCESS_TREE_PAGINATION_INFO = (\<lambda>k. None),
               JSON_parse = (\<lambda>t. None)\<rparr> [LoadClick (JNum 8) []] (ProcessBehaviorView False []))
   = Inl (TypeError, (ProcessBehaviorView False [])\<lparr>currentPid := JNum 9\<rparr>)
   \<and> events (run \<lparr>task_id = JNum 7, PROCESS_TREE_PAGINATION_INFO = (\<lambda>k. None),
               JSON_parse = (\<lambda>t. None)\<rparr> [LoadClick (JNum 8) []] (ProcessBehaviorView False [])) = []"
proof -
  let ?w = "\<lparr>task_id = JNum 7, PROCESS_TREE_PAGINATION_INFO = (\<lambda>k. None),
              JSON_parse = (\<lambda>t. None)\<rparr>"
  let ?v = "ProcessBehaviorView False []"
  have "\<not> loader ?v" by (simp add: ProcessBehaviorView_def)
  then have "loadChunk ?w (JNum 8) JUndefined ?v = Inl (TypeError, ?v\<lparr>currentPid := JNum 8\<rparr>)"
    by (simp add: loadChunk_def Let_def url_nonempty)
  then have r: "run ?w [LoadClick (JNum 8) []] ?v = ?v\<lparr>currentPid := JNum 8\<rparr>" by simp
  have e: "events ?v = []" by (simp add: ProcessBehaviorView_def)
  note t = loadChunk_needs_loader [where br = "[]" and w = ?w and acts = "[LoadClick (JNum 8) []]"
      and pid = "JNum 9" and f = JUndefined]
  show ?thesis unfolding r using t [unfolded r] by (simp add: e)
qed

text \<open>
  Claim C9. In every state that a view can reach, \<^verbatim>\<open>populate\<close> with an absent (falsy)
  script element does not throw: \<^verbatim>\<open>parseProcessData\<close> returns the empty record, the three
  placeholders receive the fields \<^verbatim>\<open>pid\<close>, \<^verbatim>\<open>ppid\<close> and \<^verbatim>\<open>name\<close> of that record (all
  \<^verbatim>\<open>undefined\<close>), and a pagination bar is created for page 1. With an element whose text
  parses to a record the same happens with the fields of that record.
\<close>

theorem populate_absent_or_present:
  assumes "v = run w acts (ProcessBehaviorView hl br)"
  shows "parseProcessData w None = Inr (JObj [])
       \<and> populate w None v =
           Inr (v\<lparr>currentPage := JNum 1,
                  bar_of := Some (PaginationBar (Some []) None
                                    (PROCESS_TREE_PAGINATION_INFO w ''undefined'')),
                  bar_pid := JUndefined,
                  events := events v @
                    [SetText ''process-detail-pid'' JUndefined,
                     SetText ''process-detail-ppid'' JUndefined,
                     SetText ''process-detail-name'' JUndefined] @
                    (if bar_of v = None then [] else [BarEmptied])\<rparr>)
       \<and> (JSON_parse w txt = Some (JObj kvs) \<longrightarrow>
           populate w (Some txt) v =
             Inr (v\<lparr>currentPage := JNum 1,
                    bar_of := Some (PaginationBar (Some []) None
                                (PROCESS_TREE_PAGINATION_INFO w (to_string (property kvs ''pid'')))),
                    bar_pid := property kvs ''pid'',
                    events := events v @
                      [SetText ''process-detail-pid'' (property kvs ''pid''),
                       SetText ''process-detail-ppid'' (property kvs ''ppid''),
                       SetText ''process-detail-name'' (property kvs ''name'')] @
                      (if bar_of v = None then [] else [BarEmptied])\<rparr>))
       \<and> config_currentPage (PaginationBar (Some []) None tp) = Num 1"
proof -
  have b: "bar_bound v" unfolding assms by (rule bar_bound_reachable)
  have p0: "parseProcessData w None = Inr (JObj [])" by (simp add: parseProcessData_def)
  have u: "property [] k = JUndefined" for k by (simp add: property_def)
  have a: "populate w None v =
           Inr (v\<lparr>currentPage := JNum 1,
                  bar_of := Some (PaginationBar (Some []) None
                                    (PROCESS_TREE_PAGINATION_INFO w ''undefined'')),
                  bar_pid := JUndefined,
                  events := events v @
                    [SetText ''process-detail-pid'' JUndefined,
                     SetText ''process-detail-ppid'' JUndefined,
                     SetText ''process-detail-name'' JUndefined] @
                    (if bar_of v = None then [] else [BarEmptied])\<rparr>)"
    using populate_object [OF b p0] by (simp add: u)
  have c: "populate w (Some txt) v =
             Inr (v\<lparr>currentPage := JNum 1,
                    bar_of := Some (PaginationBar (Some []) None
                                (PROCESS_TREE_PAGINATION_INFO w (to_string (property kvs ''pid'')))),
                    bar_pid := property kvs ''pid'',
                    events := events v @
                      [SetText ''process-detail-pid'' (property kvs ''pid''),
                       SetText ''process-detail-ppid'' (property kvs ''ppid''),
                       SetText ''process-detail-name'' (property kvs ''name'')] @
                      (if bar_of v = None then [] else [BarEmptied])\<rparr>)"
    if "JSON_parse w txt = Some (JObj kvs)"
  proof -
    from that have "parseProcessData w (Some txt) = Inr (JObj kvs)"
      by (simp add: parseProcessData_def)
    from populate_object [OF b this] show ?thesis .
  qed
  from p0 a c config_PaginationBar(1) show ?thesis by blast
qed

theorem populate_absent_or_present_witness:
  "populate \<lparr>task_id = JNum 7, PROCESS_TREE_PAGINATION_INFO = (\<lambda>k. None),
              JSON_parse = (\<lambda>t. Some (JObj [(''pid'', JNum 8), (''ppid'', JNum 4),
                                              (''name'', JStr ''a.exe'')]))\<rparr>
      None (ProcessBehaviorView True []) =
     Inr ((ProcessBehaviorView True [])\<lparr>currentPage := JNum 1,
            bar_of := Some (PaginationBar (Some []) None None),
            bar_pid := JUndefined,
            events := [LoaderStop, SetText ''process-detail-pid'' JUndefined,
                       SetText ''process-detail-ppid'' JUndefined,
                       SetText ''process-detail-name'' JUndefined]\<rparr>)
   \<and> populate \<lparr>task_id = JNum 7, PROCESS_TREE_PAGINATION_INFO = (\<lambda>k. None),
              JSON_parse = (\<lambda>t. Some (JObj [(''pid'', JNum 8), (''ppid'', JNum 4),
                                              (''name'', JStr ''a.exe'')]))\<rparr>
      (Some ''{}'') (ProcessBehaviorView True []) =
     Inr ((ProcessBehaviorView True [])\<lparr>currentPage := JNum 1,
            bar_of := Some (PaginationBar (Some []) None None),
            bar_pid := JNum 8,
            events := [LoaderStop, SetText ''process-detail-pid'' (JNum 8),
                       SetText ''process-detail-ppid'' (JNum 4),
                       SetText ''process-detail-name'' (JStr ''a.exe'')]\<rparr>)"
proof -
  let ?kvs = "[(''pid'', JNum 8), (''ppid'', JNum 4), (''name'', JStr ''a.exe'')]"
  let ?w = "\<lparr>task_id = JNum 7, PROCESS_TREE_PAGINATION_INFO = (\<lambda>k. None),
              JSON_parse = (\<lambda>t. Some (JObj ?kvs))\<rparr>"
  let ?v = "ProcessBehaviorView True []"
  have r: "?v = run ?w [] ?v" by simp
  have j: "JSON_parse ?w ''{}'' = Some (JObj ?kvs)" by simp
  have f: "events ?v = [LoaderStop]" "bar_of ?v = None" by (simp_all add: ProcessBehaviorView_def)
  have p: "property ?kvs ''pid'' = JNum 8" "property ?kvs ''ppid'' = JNum 4"
    "property ?kvs ''name'' = JStr ''a.exe''"
    by (simp_all add: property_def)
  note t = populate_absent_or_present [OF r, of "''{}''" ?kvs]
  from t j show ?thesis by (simp add: f p)
qed

end
